theory Spec2Isabelle
  imports Complex_Main "HOL-Library.Sublist"
begin

section \<open>Exceptions and programs with state\<close>

text \<open>
  The exceptions of the Python run time and of Selenium that the cleaner can meet. All of
  them derive from Python's \<open>Exception\<close>, so an \<open>except Exception\<close> clause catches
  each of them.
\<close>

datatype exc =
    TimeoutException
  | NoSuchElementException
  | WebDriverException string
  | ValueError
  | OverflowError
  | ZeroDivisionError

text \<open>
  A statement of the source is a function from the state to a result and the new state;
  the result is \<open>Inl e\<close> when the statement raised \<open>e\<close>. The state is returned in both
  cases: what a method assigned before it raised stays assigned.
\<close>

type_synonym ('a, 's) prog = "'s \<Rightarrow> (exc + 'a) \<times> 's"

definition ret :: "'a \<Rightarrow> ('a, 's) prog" where
  "ret a s = (Inr a, s)"

definition raise :: "exc \<Rightarrow> ('a, 's) prog" where
  "raise e s = (Inl e, s)"

definition seq :: "('a, 's) prog \<Rightarrow> ('a \<Rightarrow> ('b, 's) prog) \<Rightarrow> ('b, 's) prog" where
  "seq m f s = (case m s of (Inl e, s') \<Rightarrow> (Inl e, s') | (Inr a, s') \<Rightarrow> f a s')"

text \<open>\<open>try: m except Exception as e: h e\<close>\<close>

definition try_except :: "('a, 's) prog \<Rightarrow> (exc \<Rightarrow> ('a, 's) prog) \<Rightarrow> ('a, 's) prog" where
  "try_except m h s = (case m s of (Inl e, s') \<Rightarrow> h e s' | (Inr a, s') \<Rightarrow> (Inr a, s'))"

section \<open>Data model\<close>

text \<open>\<open>self.stats\<close>; a \<open>datetime\<close> is its number of microseconds.\<close>

record stats =
  posts_found :: int
  posts_deleted :: int
  posts_skipped :: int
  errors_encountered :: int
  session_start :: int
  sessions_completed :: int

text \<open>The entries of the configuration dictionary that the modelled methods read.\<close>

record config =
  email :: string
  password :: string
  posts_per_session :: int
  max_sessions :: int
  session_delay :: int
  min_action_delay :: real
  max_action_delay :: real
  min_delete_delay :: real
  max_delete_delay :: real
  whatif :: bool
  verbose :: bool

text \<open>
  A value of \<open>random.random()\<close>: a number in the half-open interval from 0 to 1.
\<close>

typedef unit_real = "{r::real. 0 \<le> r \<and> r < 1}"
  by (rule exI[of _ 0]) simp

setup_lifting type_definition_unit_real

lift_definition draw_zero :: unit_real is 0
  by simp

lift_definition draw_half :: unit_real is "1 / 2"
  by simp

text \<open>
  The automation engine and the run time, as the cleaner consumes them. \<open>'w\<close> is the
  hidden state of the browser, the page, the clock and the random generator; \<open>'e\<close> is
  the type of element handles. Every operation may change the hidden state, and the
  Selenium operations may raise.

  \<^item> \<open>drv_find_elements sel\<close>: \<open>self.driver.find_elements(By.CSS_SELECTOR, sel)\<close>
  \<^item> \<open>elem_get_attribute e a\<close>: \<open>e.get_attribute(a)\<close>, \<open>None\<close> when absent
  \<^item> \<open>elem_text e\<close>: \<open>e.text\<close>
  \<^item> \<open>drv_execute_script js e\<close>: \<open>self.driver.execute_script(js, e)\<close>
  \<^item> \<open>elem_find_element e sel\<close>: \<open>e.find_element(By.CSS_SELECTOR, sel)\<close>
  \<^item> \<open>wait_until_clickable sel\<close>:
    \<open>self.wait.until(EC.element_to_be_clickable((By.CSS_SELECTOR, sel)))\<close>
  \<^item> \<open>elem_click e\<close>: \<open>e.click()\<close>
  \<^item> \<open>actions_click e\<close>: \<open>self.actions.move_to_element(e).click().perform()\<close>
  \<^item> \<open>drv_refresh\<close>: \<open>self.driver.refresh()\<close>
  \<^item> \<open>wait_for_page_load\<close>: the method of that name; it swallows \<open>TimeoutException\<close>
    and lets every other engine exception through
  \<^item> \<open>login\<close>, \<open>navigate_to_activity_log\<close>: the methods of those names; each wraps its
    whole body in \<open>try ... except Exception: return False\<close>, so each returns a boolean
  \<^item> \<open>random_random\<close>: \<open>random.random()\<close>
  \<^item> \<open>datetime_now\<close>: \<open>datetime.now()\<close>
  \<^item> \<open>str_hash s\<close>: \<open>str(hash(s))\<close>, Python's built-in string hash, printed
\<close>

record ('w, 'e) env =
  drv_find_elements :: "string \<Rightarrow> 'w \<Rightarrow> (exc + 'e list) \<times> 'w"
  elem_get_attribute :: "'e \<Rightarrow> string \<Rightarrow> 'w \<Rightarrow> (exc + string option) \<times> 'w"
  elem_text :: "'e \<Rightarrow> 'w \<Rightarrow> (exc + string) \<times> 'w"
  drv_execute_script :: "string \<Rightarrow> 'e \<Rightarrow> 'w \<Rightarrow> (exc + unit) \<times> 'w"
  elem_find_element :: "'e \<Rightarrow> string \<Rightarrow> 'w \<Rightarrow> (exc + 'e) \<times> 'w"
  wait_until_clickable :: "string \<Rightarrow> 'w \<Rightarrow> (exc + 'e) \<times> 'w"
  elem_click :: "'e \<Rightarrow> 'w \<Rightarrow> (exc + unit) \<times> 'w"
  actions_click :: "'e \<Rightarrow> 'w \<Rightarrow> (exc + unit) \<times> 'w"
  drv_refresh :: "'w \<Rightarrow> (exc + unit) \<times> 'w"
  wait_for_page_load :: "'w \<Rightarrow> (exc + unit) \<times> 'w"
  login :: "'w \<Rightarrow> bool \<times> 'w"
  navigate_to_activity_log :: "'w \<Rightarrow> bool \<times> 'w"
  random_random :: "'w \<Rightarrow> unit_real \<times> 'w"
  datetime_now :: "'w \<Rightarrow> int \<times> 'w"
  str_hash :: "string \<Rightarrow> string"

text \<open>
  The calls the cleaner issues, in order: a record kept beside the state so that theorems
  can say which engine operations a method used. \<open>Sleep d\<close> is a completed
  \<open>time.sleep(d)\<close>.
\<close>

datatype 'e call =
    FindElements string
  | GetAttribute 'e string
  | GetText 'e
  | ExecuteScript string 'e
  | FindElement 'e string
  | WaitClickable string
  | Click 'e
  | ActionsClick 'e
  | Refresh
  | WaitPageLoad
  | Login
  | Navigate
  | Sleep real

text \<open>
  The state of a \<open>FacebookCleaner\<close>: its statistics and the engine's hidden state, with
  four records of what happened: the calls issued, the value of \<open>self.stats\<close> after each
  assignment to one of its entries, for each finished session its number and the
  count its batch returned (the line \<open>Session n completed: d posts deleted\<close> of the log),
  and the exceptions the engine raised, each with the call that raised it.
  The constructor's set-up of the logger and of the browser is not modelled.
\<close>

record ('w, 'e) cleaner =
  stats :: stats
  world :: 'w
  calls :: "'e call list"
  history :: "stats list"
  sessions :: "(int \<times> int) list"
  faults :: "('e call \<times> exc) list"

definition engine :: "'e call \<Rightarrow> ('w \<Rightarrow> (exc + 'a) \<times> 'w) \<Rightarrow> ('a, ('w, 'e) cleaner) prog" where
  "engine c f st =
     (case f (world st) of
        (r, w) \<Rightarrow>
          (r, st\<lparr>world := w, calls := calls st @ [c],
                  faults := (case r of Inl e \<Rightarrow> faults st @ [(c, e)] | Inr a \<Rightarrow> faults st)\<rparr>))"

definition collaborator :: "'e call \<Rightarrow> ('w \<Rightarrow> bool \<times> 'w) \<Rightarrow> (bool, ('w, 'e) cleaner) prog" where
  "collaborator c f st = (case f (world st) of (b, w) \<Rightarrow> (Inr b, st\<lparr>world := w, calls := calls st @ [c]\<rparr>))"

definition set_stats :: "(stats \<Rightarrow> stats) \<Rightarrow> (unit, ('w, 'e) cleaner) prog" where
  "set_stats f st = (Inr (), st\<lparr>stats := f (stats st), history := history st @ [f (stats st)]\<rparr>)"

section \<open>Pacing\<close>

text \<open>\<open>random.uniform(a, b)\<close> is \<open>a + (b - a) * random.random()\<close>.\<close>

definition uniform :: "real \<Rightarrow> real \<Rightarrow> unit_real \<Rightarrow> real" where
  "uniform a b u = a + (b - a) * Rep_unit_real u"

definition random_uniform :: "('w, 'e) env \<Rightarrow> real \<Rightarrow> real \<Rightarrow> (real, ('w, 'e) cleaner) prog" where
  "random_uniform E a b st =
     (case random_random E (world st) of (u, w) \<Rightarrow> (Inr (uniform a b u), st\<lparr>world := w\<rparr>))"

text \<open>
  \<open>time.sleep(d)\<close> first turns \<open>d\<close> into a signed 64-bit number of nanoseconds,
  rounding away from zero, and raises \<open>OverflowError\<close> when that does not fit; then it
  raises \<open>ValueError\<close> for a negative \<open>d\<close>; otherwise it sleeps. (A float that is
  infinite or not a number is refused as well; the durations here are real numbers.)
\<close>

definition sleep_overflows :: "real \<Rightarrow> bool" where
  "sleep_overflows d =
     (d * 1000000000 < - 9223372036854775808 \<or> 9223372036854775807 < d * 1000000000)"

definition time_sleep :: "real \<Rightarrow> (unit, ('w, 'e) cleaner) prog" where
  "time_sleep d st =
     (if sleep_overflows d then (Inl OverflowError, st)
      else if d < 0 then (Inl ValueError, st)
      else (Inr (), st\<lparr>calls := calls st @ [Sleep d]\<rparr>))"

definition human_like_delay ::
  "('w, 'e) env \<Rightarrow> config \<Rightarrow> real option \<Rightarrow> real option \<Rightarrow> (unit, ('w, 'e) cleaner) prog" where
  "human_like_delay E cfg min_delay max_delay =
     (let min_delay = (case min_delay of None \<Rightarrow> min_action_delay cfg | Some a \<Rightarrow> a);
          max_delay = (case max_delay of None \<Rightarrow> max_action_delay cfg | Some b \<Rightarrow> b)
      in seq (random_uniform E min_delay max_delay) (\<lambda>delay. time_sleep delay))"

section \<open>Final statistics\<close>

text \<open>Python's \<open>a / b\<close> on numbers.\<close>

definition truediv :: "real \<Rightarrow> real \<Rightarrow> exc + real" where
  "truediv a b = (if b = 0 then Inl ZeroDivisionError else Inr (a / b))"

text \<open>
  The dictionary \<open>get_final_stats\<close> returns: the entries of \<open>self.stats\<close> and the derived
  ones. \<open>total_duration\<close>, the duration printed as text, is left out.
\<close>

record final_stats = stats +
  session_end :: int
  duration_seconds :: real
  posts_per_minute :: real

text \<open>\<open>timedelta.total_seconds()\<close> of a difference of two datetimes.\<close>

definition total_seconds :: "int \<Rightarrow> real" where
  "total_seconds duration = real_of_int duration / 1000000"

definition final_stats_at :: "stats \<Rightarrow> int \<Rightarrow> exc + final_stats" where
  "final_stats_at s end_time =
     (let duration = end_time - session_start s
      in case (if total_seconds duration > 0
               then (case truediv (total_seconds duration) 60 of
                       Inl e \<Rightarrow> Inl e
                     | Inr minutes \<Rightarrow> truediv (real_of_int (posts_deleted s)) minutes)
               else Inr 0) of
           Inl e \<Rightarrow> Inl e
         | Inr rate \<Rightarrow>
             Inr (stats.extend s
                    \<lparr>session_end = end_time,
                     duration_seconds = total_seconds duration,
                     posts_per_minute = rate\<rparr>))"

definition get_final_stats :: "('w, 'e) env \<Rightarrow> (final_stats, ('w, 'e) cleaner) prog" where
  "get_final_stats E st =
     (case datetime_now E (world st) of
        (end_time, w) \<Rightarrow> (final_stats_at (stats st) end_time, st\<lparr>world := w\<rparr>))"

section \<open>Configuration validation\<close>

definition validate_config :: "config \<Rightarrow> bool \<times> string" where
  "validate_config cfg =
     (if email cfg = [] then
        (False, ''Email missing. Use --email or specify in configuration file.'')
      else if password cfg = [] \<and> \<not> whatif cfg then
        (False, ''Password missing for real mode. Use --password or --whatif for testing.'')
      else if max_sessions cfg \<le> 0 then
        (False, ''Number of sessions must be greater than 0.'')
      else if posts_per_session cfg \<le> 0 then
        (False, ''Number of posts per session must be greater than 0.'')
      else if session_delay cfg < 0 then
        (False, ''Session delay cannot be negative.'')
      else if min_action_delay cfg > max_action_delay cfg then
        (False, ''Minimum delay cannot be greater than maximum delay.'')
      else (True, ''Configuration valid''))"

section \<open>Scanning the page\<close>

definition post_selectors :: "string list" where
  "post_selectors =
     [''[data-testid='activity-log-item']'',
      ''[data-pagelet='ActivityLogList'] > div'',
      ''.userContentWrapper'',
      ''[role='article']'',
      ''[data-testid='fbfeed_story']'']"

text \<open>
  The first loop of \<open>find_posts_on_page\<close>: the first selector with a non-empty result
  gives \<open>all_posts\<close>; a selector that raises is passed over.
\<close>

fun find_by_selectors :: "('w, 'e) env \<Rightarrow> string list \<Rightarrow> ('e list, ('w, 'e) cleaner) prog" where
  "find_by_selectors E [] st = (Inr [], st)"
| "find_by_selectors E (selector # rest) st =
     (case engine (FindElements selector) (drv_find_elements E selector) st of
        (Inl e, st') \<Rightarrow> find_by_selectors E rest st'
      | (Inr posts, st') \<Rightarrow>
          if posts \<noteq> [] then (Inr posts, st') else find_by_selectors E rest st')"

text \<open>Python's truth value of an attribute: \<open>None\<close> and the empty string are false.\<close>

definition truthy :: "string option \<Rightarrow> bool" where
  "truthy a = (case a of None \<Rightarrow> False | Some s \<Rightarrow> s \<noteq> [])"

text \<open>
  \<open>post.get_attribute('data-testid') or post.get_attribute('id') or str(hash(post.text[:50]))\<close>
\<close>

definition element_id :: "('w, 'e) env \<Rightarrow> 'e \<Rightarrow> (string, ('w, 'e) cleaner) prog" where
  "element_id E post =
     seq (engine (GetAttribute post ''data-testid'') (elem_get_attribute E post ''data-testid''))
       (\<lambda>a. if truthy a then ret (the a)
            else seq (engine (GetAttribute post ''id'') (elem_get_attribute E post ''id''))
              (\<lambda>b. if truthy b then ret (the b)
                   else seq (engine (GetText post) (elem_text E post))
                     (\<lambda>t. ret (str_hash E (take 50 t)))))"

text \<open>The second loop of \<open>find_posts_on_page\<close>, with its two accumulators.\<close>

fun unique_loop ::
  "('w, 'e) env \<Rightarrow> 'e list \<Rightarrow> 'e list \<Rightarrow> string set \<Rightarrow> ('e list, ('w, 'e) cleaner) prog" where
  "unique_loop E [] unique_posts seen_elements st = (Inr unique_posts, st)"
| "unique_loop E (post # rest) unique_posts seen_elements st =
     (case element_id E post st of
        (Inl e, st') \<Rightarrow> (Inl e, st')
      | (Inr eid, st') \<Rightarrow>
          if eid \<notin> seen_elements
          then unique_loop E rest (unique_posts @ [post]) (insert eid seen_elements) st'
          else unique_loop E rest unique_posts seen_elements st')"

definition remove_duplicates :: "('w, 'e) env \<Rightarrow> 'e list \<Rightarrow> ('e list, ('w, 'e) cleaner) prog" where
  "remove_duplicates E all_posts = unique_loop E all_posts [] {}"

definition find_posts_on_page :: "('w, 'e) env \<Rightarrow> ('e list, ('w, 'e) cleaner) prog" where
  "find_posts_on_page E =
     seq (find_by_selectors E post_selectors) (\<lambda>all_posts.
     seq (remove_duplicates E all_posts) (\<lambda>unique_posts.
     seq (set_stats (\<lambda>s. s\<lparr>posts_found := posts_found s + int (length unique_posts)\<rparr>)) (\<lambda>_.
     ret unique_posts)))"

section \<open>Deleting one post\<close>

text \<open>
  \<open>for selector in selectors: try: x = post.find_element(...); break
    except NoSuchElementException: continue\<close>, the result \<open>None\<close> when no selector matched.
  Any other exception leaves the loop.
\<close>

fun find_first ::
  "('w, 'e) env \<Rightarrow> 'e \<Rightarrow> string list \<Rightarrow> ('e option, ('w, 'e) cleaner) prog" where
  "find_first E post [] st = (Inr None, st)"
| "find_first E post (selector # rest) st =
     (case engine (FindElement post selector) (elem_find_element E post selector) st of
        (Inl NoSuchElementException, st') \<Rightarrow> find_first E post rest st'
      | (Inl e, st') \<Rightarrow> (Inl e, st')
      | (Inr x, st') \<Rightarrow> (Inr (Some x), st'))"

text \<open>The same loop over \<open>self.wait.until(...)\<close>, which passes over \<open>TimeoutException\<close>.\<close>

fun wait_first :: "('w, 'e) env \<Rightarrow> string list \<Rightarrow> ('e option, ('w, 'e) cleaner) prog" where
  "wait_first E [] st = (Inr None, st)"
| "wait_first E (selector # rest) st =
     (case engine (WaitClickable selector) (wait_until_clickable E selector) st of
        (Inl TimeoutException, st') \<Rightarrow> wait_first E rest st'
      | (Inl e, st') \<Rightarrow> (Inl e, st')
      | (Inr x, st') \<Rightarrow> (Inr (Some x), st'))"

definition timestamp_selectors :: "string list" where
  "timestamp_selectors =
     [''[data-testid='story-subtitle'] a'', ''.timestampContent'', ''time'', ''[title*='20']'']"

text \<open>
  The body of the \<open>try\<close> inside the timestamp loop of \<open>extract_post_info\<close>:
  \<open>time_element = post_element.find_element(...)\<close> and
  \<open>timestamp = time_element.get_attribute('title') or time_element.text\<close>.
\<close>

definition read_timestamp :: "('w, 'e) env \<Rightarrow> 'e \<Rightarrow> string \<Rightarrow> (unit, ('w, 'e) cleaner) prog" where
  "read_timestamp E post selector =
     seq (engine (FindElement post selector) (elem_find_element E post selector))
       (\<lambda>time_element.
          seq (engine (GetAttribute time_element ''title'')
                 (elem_get_attribute E time_element ''title''))
            (\<lambda>a. if truthy a then ret ()
                 else seq (engine (GetText time_element) (elem_text E time_element))
                        (\<lambda>_. ret ())))"

text \<open>
  The timestamp loop: \<open>break\<close> after the first selector whose reads succeed; a
  \<open>NoSuchElementException\<close> from any of the three reads goes on with the next selector;
  any other exception leaves the loop.
\<close>

fun timestamp_loop :: "('w, 'e) env \<Rightarrow> 'e \<Rightarrow> string list \<Rightarrow> (unit, ('w, 'e) cleaner) prog" where
  "timestamp_loop E post [] st = (Inr (), st)"
| "timestamp_loop E post (selector # rest) st =
     (case read_timestamp E post selector st of
        (Inl NoSuchElementException, st') \<Rightarrow> timestamp_loop E post rest st'
      | (Inl e, st') \<Rightarrow> (Inl e, st')
      | (Inr u, st') \<Rightarrow> (Inr (), st'))"

text \<open>
  \<open>extract_post_info\<close> reads the post's text, runs the timestamp loop and reads the
  text again; whatever is raised on the way is caught. The string it returns goes to
  the log only and is not modelled.
\<close>

definition extract_post_info :: "('w, 'e) env \<Rightarrow> 'e \<Rightarrow> (unit, ('w, 'e) cleaner) prog" where
  "extract_post_info E post =
     try_except
       (seq (engine (GetText post) (elem_text E post)) (\<lambda>_.
        seq (timestamp_loop E post timestamp_selectors) (\<lambda>_.
        seq (engine (GetText post) (elem_text E post)) (\<lambda>_. ret ()))))
       (\<lambda>e. ret ())"

definition menu_selectors :: "string list" where
  "menu_selectors =
     [''[aria-label*='More options']'',
      ''[aria-label*='Altre opzioni']'',
      ''[data-testid='post_menu']'',
      ''.UFIMoreButton'',
      ''[aria-haspopup='menu']'']"

definition delete_selectors :: "string list" where
  "delete_selectors =
     [''[data-testid*='delete']'',
      ''a:contains('Delete')'',
      ''a:contains('Elimina')'',
      ''[role='menuitem']:contains('Delete')'',
      ''[role='menuitem']:contains('Elimina')'']"

definition confirm_selectors :: "string list" where
  "confirm_selectors =
     [''[data-testid='confirm-delete-button']'',
      ''button:contains('Delete')'',
      ''button:contains('Elimina')'',
      ''[aria-label*='Confirm']'',
      ''[aria-label*='Conferma']'']"

definition scroll_script :: string where
  "scroll_script = ''arguments[0].scrollIntoView(true);''"

text \<open>The three assignments that record the outcome of an attempt.\<close>

definition deleted_one :: "stats \<Rightarrow> stats" where
  "deleted_one s = s\<lparr>posts_deleted := posts_deleted s + 1\<rparr>"

definition skipped_one :: "stats \<Rightarrow> stats" where
  "skipped_one s = s\<lparr>posts_skipped := posts_skipped s + 1\<rparr>"

definition error_one :: "stats \<Rightarrow> stats" where
  "error_one s = s\<lparr>errors_encountered := errors_encountered s + 1\<rparr>"

definition count_deleted :: "(unit, ('w, 'e) cleaner) prog" where
  "count_deleted = set_stats deleted_one"

definition count_skipped :: "(unit, ('w, 'e) cleaner) prog" where
  "count_skipped = set_stats skipped_one"

definition count_error :: "(unit, ('w, 'e) cleaner) prog" where
  "count_error = set_stats error_one"

text \<open>
  The body of the \<open>try\<close> of \<open>attempt_post_deletion\<close>, in three parts: from
  \<open># Confirm deletion\<close> on, from \<open># Look for delete option\<close> on, and the whole.
\<close>

definition confirm_deletion :: "('w, 'e) env \<Rightarrow> config \<Rightarrow> (bool, ('w, 'e) cleaner) prog" where
  "confirm_deletion E cfg =
     seq (wait_first E confirm_selectors) (\<lambda>confirm_button.
     case confirm_button of
       Some button \<Rightarrow>
         seq (engine (Click button) (elem_click E button)) (\<lambda>_.
         seq (human_like_delay E cfg (Some 2) (Some 4)) (\<lambda>_.
         seq count_deleted (\<lambda>_. ret True)))
     | None \<Rightarrow> seq count_skipped (\<lambda>_. ret False))"

definition select_delete :: "('w, 'e) env \<Rightarrow> config \<Rightarrow> (bool, ('w, 'e) cleaner) prog" where
  "select_delete E cfg =
     seq (wait_first E delete_selectors) (\<lambda>delete_option.
     case delete_option of
       None \<Rightarrow> seq count_skipped (\<lambda>_. ret False)
     | Some option \<Rightarrow>
         seq (engine (Click option) (elem_click E option)) (\<lambda>_.
         seq (human_like_delay E cfg (Some 1) (Some 2)) (\<lambda>_.
         confirm_deletion E cfg)))"

definition attempt_body :: "('w, 'e) env \<Rightarrow> config \<Rightarrow> 'e \<Rightarrow> (bool, ('w, 'e) cleaner) prog" where
  "attempt_body E cfg post_element =
     seq (engine (ExecuteScript scroll_script post_element)
            (drv_execute_script E scroll_script post_element)) (\<lambda>_.
     seq (human_like_delay E cfg (Some 1) (Some 2)) (\<lambda>_.
     seq (extract_post_info E post_element) (\<lambda>_.
     if whatif cfg then seq count_deleted (\<lambda>_. ret True)
     else
       seq (find_first E post_element menu_selectors) (\<lambda>menu_button.
       case menu_button of
         None \<Rightarrow> seq count_skipped (\<lambda>_. ret False)
       | Some button \<Rightarrow>
           seq (engine (ActionsClick button) (actions_click E button)) (\<lambda>_.
           seq (human_like_delay E cfg (Some 1) (Some 3)) (\<lambda>_.
           select_delete E cfg))))))"

definition attempt_post_deletion ::
  "('w, 'e) env \<Rightarrow> config \<Rightarrow> 'e \<Rightarrow> int \<Rightarrow> (bool, ('w, 'e) cleaner) prog" where
  "attempt_post_deletion E cfg post_element post_index =
     try_except (attempt_body E cfg post_element)
       (\<lambda>e. seq count_error (\<lambda>_. ret False))"

section \<open>Batches and sessions\<close>

text \<open>Python's \<open>xs[:n]\<close>: a negative \<open>n\<close> counts from the end.\<close>

definition slice_to :: "'a list \<Rightarrow> int \<Rightarrow> 'a list" where
  "slice_to xs n = (if 0 \<le> n then take (nat n) xs else take (nat (int (length xs) + n)) xs)"

text \<open>
  The loop of \<open>delete_posts_batch\<close> over \<open>enumerate(posts_to_process)\<close>. The pause after a
  deletion is not inside any \<open>try\<close>.
\<close>

fun process_posts ::
  "('w, 'e) env \<Rightarrow> config \<Rightarrow> 'e list \<Rightarrow> int \<Rightarrow> int \<Rightarrow> (int, ('w, 'e) cleaner) prog" where
  "process_posts E cfg [] i deleted_count = ret deleted_count"
| "process_posts E cfg (post # rest) i deleted_count =
     seq (attempt_post_deletion E cfg post i) (\<lambda>deleted.
     if deleted then
       seq (random_uniform E (min_delete_delay cfg) (max_delete_delay cfg)) (\<lambda>delay.
       seq (time_sleep delay) (\<lambda>_.
       process_posts E cfg rest (i + 1) (deleted_count + 1)))
     else process_posts E cfg rest (i + 1) deleted_count)"

definition delete_posts_batch :: "('w, 'e) env \<Rightarrow> config \<Rightarrow> int \<Rightarrow> (int, ('w, 'e) cleaner) prog" where
  "delete_posts_batch E cfg max_posts =
     seq (find_posts_on_page E) (\<lambda>posts.
     if posts = [] then ret 0
     else process_posts E cfg (slice_to posts max_posts) 0 0)"

text \<open>The countdown of the verbose pause: one second at a time while \<open>remaining > 0\<close>.\<close>

fun countdown :: "nat \<Rightarrow> (unit, ('w, 'e) cleaner) prog" where
  "countdown 0 = ret ()"
| "countdown (Suc remaining) = seq (time_sleep 1) (\<lambda>_. countdown remaining)"

definition session_pause :: "config \<Rightarrow> int \<Rightarrow> (unit, ('w, 'e) cleaner) prog" where
  "session_pause cfg session =
     (if session < max_sessions cfg - 1 then
        (if verbose cfg then countdown (nat (session_delay cfg))
         else time_sleep (real_of_int (session_delay cfg)))
      else ret ())"

definition refresh_page :: "('w, 'e) env \<Rightarrow> config \<Rightarrow> int \<Rightarrow> (unit, ('w, 'e) cleaner) prog" where
  "refresh_page E cfg session =
     (if session > 0 \<and> \<not> whatif cfg then
        seq (engine Refresh (drv_refresh E)) (\<lambda>_.
        seq (engine WaitPageLoad (wait_for_page_load E)) (\<lambda>_.
        human_like_delay E cfg (Some 3) (Some 5)))
      else ret ())"

definition log_session :: "int \<Rightarrow> int \<Rightarrow> (unit, ('w, 'e) cleaner) prog" where
  "log_session n session_deleted st = (Inr (), st\<lparr>sessions := sessions st @ [(n, session_deleted)]\<rparr>)"

definition count_session :: "(unit, ('w, 'e) cleaner) prog" where
  "count_session = set_stats (\<lambda>s. s\<lparr>sessions_completed := sessions_completed s + 1\<rparr>)"

text \<open>
  The session loop of \<open>clean_profile_gradually\<close> over the values of
  \<open>range(max_sessions)\<close> still to come; \<open>break\<close> is the branch without a recursive call.
\<close>

fun session_loop :: "('w, 'e) env \<Rightarrow> config \<Rightarrow> int list \<Rightarrow> (unit, ('w, 'e) cleaner) prog" where
  "session_loop E cfg [] = ret ()"
| "session_loop E cfg (session # rest) =
     seq (refresh_page E cfg session) (\<lambda>_.
     seq (delete_posts_batch E cfg (posts_per_session cfg)) (\<lambda>session_deleted.
     seq (log_session (session + 1) session_deleted) (\<lambda>_.
     seq count_session (\<lambda>_.
     seq (session_pause cfg session) (\<lambda>_.
     if session_deleted = 0 then ret () else session_loop E cfg rest)))))"

definition clean_profile_gradually ::
  "('w, 'e) env \<Rightarrow> config \<Rightarrow> (final_stats, ('w, 'e) cleaner) prog" where
  "clean_profile_gradually E cfg =
     seq (collaborator Login (login E)) (\<lambda>logged_in.
     if \<not> logged_in then get_final_stats E
     else
       seq (collaborator Navigate (navigate_to_activity_log E)) (\<lambda>navigated.
       if \<not> navigated then get_final_stats E
       else
         seq (session_loop E cfg [0 .. max_sessions cfg - 1]) (\<lambda>_.
         get_final_stats E)))"

text \<open>The state \<open>__init__\<close> leaves: every counter zero, the start time read from the clock.\<close>

definition new_cleaner :: "('w, 'e) env \<Rightarrow> 'w \<Rightarrow> ('w, 'e) cleaner" where
  "new_cleaner E w =
     (case datetime_now E w of
        (start, w') \<Rightarrow>
          \<lparr>stats = \<lparr>posts_found = 0, posts_deleted = 0, posts_skipped = 0,
                    errors_encountered = 0, session_start = start, sessions_completed = 0\<rparr>,
           world = w', calls = [], history = [], sessions = [], faults = []\<rparr>)"

section \<open>Properties of the statistics\<close>

text \<open>The number of attempts the statistics record, and the accounting invariant.\<close>

definition attempted :: "stats \<Rightarrow> int" where
  "attempted s = posts_deleted s + posts_skipped s + errors_encountered s"

definition accounted :: "stats \<Rightarrow> bool" where
  "accounted s = (attempted s \<le> posts_found s)"

text \<open>
  One assignment to \<open>self.stats\<close>: \<open>posts_found\<close> grows, or one of the other counters
  grows by one; every other entry keeps its value.
\<close>

definition stats_step :: "stats \<Rightarrow> stats \<Rightarrow> bool" where
  "stats_step s s' =
     ((posts_found s \<le> posts_found s' \<and> s' = s\<lparr>posts_found := posts_found s'\<rparr>)
      \<or> s' = s\<lparr>posts_deleted := posts_deleted s + 1\<rparr>
      \<or> s' = s\<lparr>posts_skipped := posts_skipped s + 1\<rparr>
      \<or> s' = s\<lparr>errors_encountered := errors_encountered s + 1\<rparr>
      \<or> s' = s\<lparr>sessions_completed := sessions_completed s + 1\<rparr>)"

section \<open>Notions used in the proofs\<close>

text \<open>A statement that assigns nothing to the statistics and logs no session.\<close>

definition quiet :: "('a, ('w, 'e) cleaner) prog \<Rightarrow> bool" where
  "quiet m = (\<forall>st. stats (snd (m st)) = stats st \<and> history (snd (m st)) = history st
                 \<and> sessions (snd (m st)) = sessions st)"

text \<open>
  What the body of the \<open>try\<close> does to the statistics: nothing when it raises, one
  assignment to the counter of its result when it returns.
\<close>

definition body_spec :: "(bool, ('w, 'e) cleaner) prog \<Rightarrow> bool" where
  "body_spec m = (\<forall>st. case m st of
       (Inl e, st') \<Rightarrow> stats st' = stats st \<and> history st' = history st \<and> sessions st' = sessions st
     | (Inr b, st') \<Rightarrow> history st' = history st @ [stats st'] \<and> sessions st' = sessions st
          \<and> stats st' = (if b then deleted_one (stats st) else skipped_one (stats st)))"

text \<open>
  The invariant of a run that started with the statistics \<open>s0\<close>: every value the
  statistics have had is accounted, each came from the one before by one step, the
  current value is the last of them, and \<open>k\<close> more attempts are covered by what was
  counted as found.
\<close>

definition ledger :: "stats \<Rightarrow> int \<Rightarrow> ('w, 'e) cleaner \<Rightarrow> bool" where
  "ledger s0 k st =
     (list_all accounted (s0 # history st) \<and> successively stats_step (s0 # history st)
      \<and> last (s0 # history st) = stats st \<and> attempted (stats st) + k \<le> posts_found (stats st))"

section \<open>A simulated page\<close>

text \<open>
  A small engine to run the cleaner on. The page lists posts, numbered; post \<open>p\<close> has the
  menu button \<open>1000 + p\<close>, the delete entry \<open>2000 + p\<close> and the confirm button
  \<open>3000 + p\<close>. Posts have no test identifier; their DOM identifier depends on the last
  digit of the number and is empty when that is 0; every text has the same hash.
  Scrolling to a stale post raises. Choosing delete removes the post at
  once when the platform shows no dialog, and after the confirming click otherwise.
\<close>

record page =
  clock :: int
  clock_step :: int
  listed :: "nat list"
  stale :: "nat list"
  menu_of :: "nat option"
  pending :: "nat option"
  dialog :: bool
  can_login :: bool
  can_navigate :: bool

definition remove_post :: "nat \<Rightarrow> page \<Rightarrow> page" where
  "remove_post p w = w\<lparr>listed := filter (\<lambda>q. q \<noteq> p) (listed w), menu_of := None, pending := None\<rparr>"

definition sim_click :: "nat \<Rightarrow> page \<Rightarrow> (exc + unit) \<times> page" where
  "sim_click e w =
     (if 3000 \<le> e then (Inr (), remove_post (e - 3000) w)
      else if 2000 \<le> e then
        (if dialog w then (Inr (), w\<lparr>menu_of := None, pending := Some (e - 2000)\<rparr>)
         else (Inr (), remove_post (e - 2000) w))
      else (Inr (), w))"

definition sim_wait :: "string \<Rightarrow> page \<Rightarrow> (exc + nat) \<times> page" where
  "sim_wait sel w =
     (if sel = ''[data-testid*='delete']'' then
        (case menu_of w of Some p \<Rightarrow> (Inr (2000 + p), w) | None \<Rightarrow> (Inl TimeoutException, w))
      else if sel = ''[aria-label*='Confirm']'' then
        (case pending w of Some p \<Rightarrow> (Inr (3000 + p), w) | None \<Rightarrow> (Inl TimeoutException, w))
      else (Inl TimeoutException, w))"

definition dom_id :: "nat \<Rightarrow> string" where
  "dom_id e = (if e mod 10 = 0 then [] else if e mod 10 = 1 then ''post-a'' else ''post-b'')"

definition sim :: "(page, nat) env" where
  "sim =
     \<lparr>drv_find_elements = (\<lambda>sel w. (Inr (if sel = ''[role='article']'' then listed w else []), w)),
      elem_get_attribute =
        (\<lambda>e a w. (Inr (if a = ''id'' then Some (dom_id e) else None), w)),
      elem_text = (\<lambda>e w. (Inr ''A post'', w)),
      drv_execute_script =
        (\<lambda>js e w. (if e \<in> set (stale w)
                    then Inl (WebDriverException ''stale element reference'') else Inr (), w)),
      elem_find_element =
        (\<lambda>e sel w. (if sel = ''[aria-haspopup='menu']'' then Inr (1000 + e)
                     else Inl NoSuchElementException, w)),
      wait_until_clickable = sim_wait,
      elem_click = sim_click,
      actions_click = (\<lambda>e w. (Inr (), w\<lparr>menu_of := Some (e - 1000)\<rparr>)),
      drv_refresh = (\<lambda>w. (Inr (), w)),
      wait_for_page_load = (\<lambda>w. (Inr (), w)),
      login = (\<lambda>w. (can_login w, w)),
      navigate_to_activity_log = (\<lambda>w. (can_navigate w, w)),
      random_random = (\<lambda>w. (draw_half, w)),
      datetime_now = (\<lambda>w. (clock w, w\<lparr>clock := clock w + clock_step w\<rparr>)),
      str_hash = (\<lambda>s. ''5740354900026072187'')\<rparr>"

definition page0 :: page where
  "page0 = \<lparr>clock = 0, clock_step = 1000000, listed = [1, 2], stale = [], menu_of = None,
            pending = None, dialog = True, can_login = True, can_navigate = True\<rparr>"

definition cfg0 :: config where
  "cfg0 = \<lparr>email = ''user@example.com'', password = ''secret'', posts_per_session = 10,
           max_sessions = 3, session_delay = 0, min_action_delay = 1, max_action_delay = 3,
           min_delete_delay = 3, max_delete_delay = 7, whatif = False, verbose = False\<rparr>"

text \<open>A cleaner whose start time lies a minute after the clock's next reading.\<close>

definition late_start :: "(page, nat) cleaner" where
  "late_start =
     \<lparr>stats = \<lparr>posts_found = 3, posts_deleted = 3, posts_skipped = 0, errors_encountered = 0,
               session_start = 60000000, sessions_completed = 1\<rparr>,
      world = page0, calls = [], history = [], sessions = [], faults = []\<rparr>"

section \<open>Further notions and simulated states\<close>

text \<open>The calls a statement adds all satisfy P.\<close>

definition emits :: "('e call \<Rightarrow> bool) \<Rightarrow> ('a, ('w, 'e) cleaner) prog \<Rightarrow> bool" where
  "emits P m = (\<forall>st. \<exists>cs. calls (snd (m st)) = calls st @ cs \<and> list_all P cs)"

text \<open>
  The calls of an attempt that only looks at the page: the scroll into view, pauses, and
  the reads of \<open>extract_post_info\<close>. No click is among them, and no lookup of a menu,
  delete or confirm control.
\<close>

definition observes :: "'e \<Rightarrow> 'e call \<Rightarrow> bool" where
  "observes post c =
     (case c of
        ExecuteScript js e \<Rightarrow> js = scroll_script \<and> e = post
      | Sleep d \<Rightarrow> True
      | GetText e \<Rightarrow> True
      | FindElement e sel \<Rightarrow> e = post \<and> sel \<in> set timestamp_selectors
      | GetAttribute e a \<Rightarrow> a = ''title''
      | _ \<Rightarrow> False)"

text \<open>A new cleaner on a page whose post 1 is stale.\<close>

definition stale_start :: "(page, nat) cleaner" where
  "stale_start = new_cleaner sim (page0\<lparr>stale := [1]\<rparr>)"

text \<open>An engine on which reading the text of an element raises.\<close>

definition sim_no_text :: "(page, nat) env" where
  "sim_no_text = sim\<lparr>elem_text := (\<lambda>e w. (Inl (WebDriverException ''no such window''), w))\<rparr>"

text \<open>
  The engine exceptions an attempt handles where they arise: whatever is raised inside
  \<open>extract_post_info\<close> (its reads of text and title, and its lookups by the timestamp
  selectors), \<open>NoSuchElementException\<close> from a lookup inside the post, and
  \<open>TimeoutException\<close> from a wait for a clickable control.
\<close>

definition handled_in_place :: "'e call \<times> exc \<Rightarrow> bool" where
  "handled_in_place f =
     (case fst f of
        GetText e \<Rightarrow> True
      | GetAttribute e a \<Rightarrow> True
      | FindElement e sel \<Rightarrow> sel \<in> set timestamp_selectors \<or> snd f = NoSuchElementException
      | WaitClickable sel \<Rightarrow> snd f = TimeoutException
      | _ \<Rightarrow> False)"

text \<open>Every exception the engine raises in the statement satisfies H, whether it is caught or not.\<close>

definition mild :: "('e call \<times> exc \<Rightarrow> bool) \<Rightarrow> ('a, ('w, 'e) cleaner) prog \<Rightarrow> bool" where
  "mild H m = (\<forall>st. \<exists>fs. faults (snd (m st)) = faults st @ fs \<and> list_all H fs)"

text \<open>
  The statement returns after engine exceptions that satisfy H only, and when it raises,
  what it raises is the last engine exception, which does not satisfy H and came from
  the last call made.
\<close>

definition faulting :: "('e call \<times> exc \<Rightarrow> bool) \<Rightarrow> ('a, ('w, 'e) cleaner) prog \<Rightarrow> bool" where
  "faulting H m = (\<forall>st. case m st of
       (Inr a, st') \<Rightarrow> (\<exists>fs. faults st' = faults st @ fs \<and> list_all H fs)
     | (Inl e, st') \<Rightarrow> (\<exists>fs c. faults st' = faults st @ fs @ [(c, e)] \<and> list_all H fs
                            \<and> \<not> H (c, e) \<and> calls st' \<noteq> [] \<and> last (calls st') = c))"




text \<open>A page with the single post 1.\<close>

definition one_post :: page where
  "one_post = page0\<lparr>listed := [1]\<rparr>"



text \<open>
  What a run on the simulated page comes to: the posts left on the page, the clicks made,
  the counts of deleted, skipped and failed attempts, and the sessions logged.
\<close>

definition is_click :: "'e call \<Rightarrow> bool" where
  "is_click c = (case c of Click e \<Rightarrow> True | ActionsClick e \<Rightarrow> True | _ \<Rightarrow> False)"

definition page_report ::
  "(page, nat) cleaner \<Rightarrow> nat list \<times> nat call list \<times> int \<times> int \<times> int \<times> (int \<times> int) list" where
  "page_report st =
     (listed (world st), filter is_click (calls st), posts_deleted (stats st),
      posts_skipped (stats st), errors_encountered (stats st), sessions st)"

section \<open>Statements that leave the statistics alone\<close>


lemma quiet_ret: "quiet (ret a)"
  by (simp add: quiet_def ret_def)

lemma quiet_engine: "quiet (engine c f)"
  by (simp add: quiet_def engine_def split: prod.splits)

lemma quiet_collaborator: "quiet (collaborator c f)"
  by (simp add: quiet_def collaborator_def split: prod.splits)

lemma quiet_random_uniform: "quiet (random_uniform E a b)"
  by (simp add: quiet_def random_uniform_def split: prod.splits)

lemma quiet_time_sleep: "quiet (time_sleep d)"
  by (simp add: quiet_def time_sleep_def)

lemma quiet_seq: "quiet m \<Longrightarrow> (\<And>a. quiet (f a)) \<Longrightarrow> quiet (seq m f)"
  unfolding quiet_def seq_def
  by (auto split: prod.splits sum.splits) (metis snd_conv)+

lemma quiet_try_except: "quiet m \<Longrightarrow> (\<And>e. quiet (h e)) \<Longrightarrow> quiet (try_except m h)"
  unfolding quiet_def try_except_def
  by (auto split: prod.splits sum.splits) (metis snd_conv)+

lemma quiet_human_like_delay: "quiet (human_like_delay E cfg a b)"
  by (simp add: human_like_delay_def Let_def quiet_seq quiet_random_uniform quiet_time_sleep)

lemma quietD: "quiet m \<Longrightarrow> m st = (r, st') \<Longrightarrow>
    stats st' = stats st \<and> history st' = history st \<and> sessions st' = sessions st"
  unfolding quiet_def by (metis snd_conv)

lemma quiet_find_first: "quiet (find_first E post sels)"
proof (induction sels)
  case Nil
  show ?case by (simp add: quiet_def)
next
  case (Cons s sels)
  show ?case
    unfolding quiet_def
  proof (intro allI)
    fix st
    obtain r st1 where e: "engine (FindElement post s) (elem_find_element E post s) st = (r, st1)"
      by (cases "engine (FindElement post s) (elem_find_element E post s) st")
    have q1: "stats st1 = stats st \<and> history st1 = history st \<and> sessions st1 = sessions st"
      using quietD[OF quiet_engine e] .
    have q2: "stats (snd (find_first E post sels st1)) = stats st1
            \<and> history (snd (find_first E post sels st1)) = history st1
            \<and> sessions (snd (find_first E post sels st1)) = sessions st1"
      using Cons.IH unfolding quiet_def by blast
    show "stats (snd (find_first E post (s # sels) st)) = stats st \<and>
          history (snd (find_first E post (s # sels) st)) = history st \<and>
          sessions (snd (find_first E post (s # sels) st)) = sessions st"
      using e q1 q2 by (auto split: sum.splits exc.splits)
  qed
qed

lemma quiet_wait_first: "quiet (wait_first (E :: ('w, 'e) env) sels)"
proof (induction sels)
  case Nil
  show ?case by (simp add: quiet_def)
next
  case (Cons s sels)
  show ?case
    unfolding quiet_def
  proof (intro allI)
    fix st :: "('w, 'e) cleaner"
    obtain r st1 where e: "engine (WaitClickable s) (wait_until_clickable E s) st = (r, st1)"
      by (cases "engine (WaitClickable s) (wait_until_clickable E s) st")
    have q1: "stats st1 = stats st \<and> history st1 = history st \<and> sessions st1 = sessions st"
      using quietD[OF quiet_engine e] .
    have q2: "stats (snd (wait_first E sels st1)) = stats st1
            \<and> history (snd (wait_first E sels st1)) = history st1
            \<and> sessions (snd (wait_first E sels st1)) = sessions st1"
      using Cons.IH unfolding quiet_def by blast
    show "stats (snd (wait_first E (s # sels) st)) = stats st \<and>
          history (snd (wait_first E (s # sels) st)) = history st \<and>
          sessions (snd (wait_first E (s # sels) st)) = sessions st"
      using e q1 q2 by (auto split: sum.splits exc.splits)
  qed
qed

lemma quiet_find_by_selectors: "quiet (find_by_selectors (E :: ('w, 'e) env) sels)"
proof (induction sels)
  case Nil
  show ?case by (simp add: quiet_def)
next
  case (Cons s sels)
  show ?case
    unfolding quiet_def
  proof (intro allI)
    fix st :: "('w, 'e) cleaner"
    obtain r st1 where e: "engine (FindElements s) (drv_find_elements E s) st = (r, st1)"
      by (cases "engine (FindElements s) (drv_find_elements E s) st")
    have q1: "stats st1 = stats st \<and> history st1 = history st \<and> sessions st1 = sessions st"
      using quietD[OF quiet_engine e] .
    have q2: "stats (snd (find_by_selectors E sels st1)) = stats st1
            \<and> history (snd (find_by_selectors E sels st1)) = history st1
            \<and> sessions (snd (find_by_selectors E sels st1)) = sessions st1"
      using Cons.IH unfolding quiet_def by blast
    show "stats (snd (find_by_selectors E (s # sels) st)) = stats st \<and>
          history (snd (find_by_selectors E (s # sels) st)) = history st \<and>
          sessions (snd (find_by_selectors E (s # sels) st)) = sessions st"
      using e q1 q2 by (auto split: sum.splits)
  qed
qed

lemma quiet_element_id: "quiet (element_id E post)"
  unfolding element_id_def
  by (intro quiet_seq quiet_engine) (simp_all add: quiet_ret quiet_seq quiet_engine)

lemma quiet_unique_loop: "quiet (unique_loop E posts unique_posts seen)"
proof (induction posts arbitrary: unique_posts seen)
  case Nil
  show ?case by (simp add: quiet_def)
next
  case (Cons p posts)
  show ?case
    unfolding quiet_def
  proof (intro allI)
    fix st
    obtain r st1 where e: "element_id E p st = (r, st1)"
      by (cases "element_id E p st")
    have q1: "stats st1 = stats st \<and> history st1 = history st \<and> sessions st1 = sessions st"
      using quietD[OF quiet_element_id e] .
    have q2: "\<And>u s. stats (snd (unique_loop E posts u s st1)) = stats st1
            \<and> history (snd (unique_loop E posts u s st1)) = history st1
            \<and> sessions (snd (unique_loop E posts u s st1)) = sessions st1"
      using Cons.IH unfolding quiet_def by blast
    show "stats (snd (unique_loop E (p # posts) unique_posts seen st)) = stats st \<and>
          history (snd (unique_loop E (p # posts) unique_posts seen st)) = history st \<and>
          sessions (snd (unique_loop E (p # posts) unique_posts seen st)) = sessions st"
      using e q1 q2 by (auto split: sum.splits)
  qed
qed

lemma quiet_read_timestamp: "quiet (read_timestamp E post s)"
  unfolding read_timestamp_def
  by (intro quiet_seq quiet_engine) (simp_all add: quiet_ret quiet_seq quiet_engine)

lemma quiet_timestamp_loop: "quiet (timestamp_loop (E :: ('w, 'e) env) post sels)"
proof (induction sels)
  case Nil
  show ?case by (simp add: quiet_def)
next
  case (Cons s sels)
  show ?case
    unfolding quiet_def
  proof (intro allI)
    fix st :: "('w, 'e) cleaner"
    obtain r st1 where e: "read_timestamp E post s st = (r, st1)"
      by (cases "read_timestamp E post s st")
    have q1: "stats st1 = stats st \<and> history st1 = history st \<and> sessions st1 = sessions st"
      using quietD[OF quiet_read_timestamp e] .
    have q2: "stats (snd (timestamp_loop E post sels st1)) = stats st1
            \<and> history (snd (timestamp_loop E post sels st1)) = history st1
            \<and> sessions (snd (timestamp_loop E post sels st1)) = sessions st1"
      using Cons.IH unfolding quiet_def by blast
    show "stats (snd (timestamp_loop E post (s # sels) st)) = stats st \<and>
          history (snd (timestamp_loop E post (s # sels) st)) = history st \<and>
          sessions (snd (timestamp_loop E post (s # sels) st)) = sessions st"
      using e q1 q2 by (auto split: sum.splits exc.splits)
  qed
qed

lemma quiet_extract_post_info: "quiet (extract_post_info E post)"
  unfolding extract_post_info_def
  by (intro quiet_try_except quiet_seq quiet_engine quiet_timestamp_loop quiet_ret)

lemma quiet_countdown: "quiet (countdown n)"
  by (induction n) (simp_all add: quiet_ret quiet_seq quiet_time_sleep)

lemma quiet_session_pause: "quiet (session_pause cfg session)"
  by (simp add: session_pause_def quiet_ret quiet_countdown quiet_time_sleep)

lemma quiet_refresh_page: "quiet (refresh_page E cfg session)"
  by (simp add: refresh_page_def quiet_ret quiet_seq quiet_engine quiet_human_like_delay)

lemma body_specD:
  assumes "body_spec m" and "m st = (r, st')"
  shows "case r of
       Inl e \<Rightarrow> stats st' = stats st \<and> history st' = history st \<and> sessions st' = sessions st
     | Inr b \<Rightarrow> history st' = history st @ [stats st'] \<and> sessions st' = sessions st
          \<and> stats st' = (if b then deleted_one (stats st) else skipped_one (stats st))"
proof -
  from assms(1) have "case m st of
       (Inl e, st') \<Rightarrow> stats st' = stats st \<and> history st' = history st \<and> sessions st' = sessions st
     | (Inr b, st') \<Rightarrow> history st' = history st @ [stats st'] \<and> sessions st' = sessions st
          \<and> stats st' = (if b then deleted_one (stats st) else skipped_one (stats st))"
    unfolding body_spec_def by (rule spec)
  then show ?thesis using assms(2) by (simp split: sum.splits)
qed

lemma body_spec_deleted: "body_spec (seq count_deleted (\<lambda>_. ret True))"
  by (simp add: body_spec_def seq_def count_deleted_def set_stats_def ret_def)

lemma body_spec_skipped: "body_spec (seq count_skipped (\<lambda>_. ret False))"
  by (simp add: body_spec_def seq_def count_skipped_def set_stats_def ret_def)

lemma body_spec_seq:
  assumes "quiet m" and "\<And>a. body_spec (f a)"
  shows "body_spec (seq m f)"
  unfolding body_spec_def
proof (intro allI)
  fix st
  obtain r st1 where m: "m st = (r, st1)" by (cases "m st")
  note q = quietD[OF assms(1) m]
  show "case seq m f st of
       (Inl e, st') \<Rightarrow> stats st' = stats st \<and> history st' = history st \<and> sessions st' = sessions st
     | (Inr b, st') \<Rightarrow> history st' = history st @ [stats st'] \<and> sessions st' = sessions st
          \<and> stats st' = (if b then deleted_one (stats st) else skipped_one (stats st))"
  proof (cases r)
    case (Inl e)
    then show ?thesis using m q by (simp add: seq_def)
  next
    case (Inr a)
    obtain r2 st2 where f: "f a st1 = (r2, st2)" by (cases "f a st1")
    have "seq m f st = (r2, st2)" using m Inr f by (simp add: seq_def)
    then show ?thesis using body_specD[OF assms(2) f] q by (simp split: sum.splits)
  qed
qed

lemma body_spec_confirm_deletion: "body_spec (confirm_deletion E cfg)"
  unfolding confirm_deletion_def
  by (rule body_spec_seq[OF quiet_wait_first])
     (auto split: option.splits
           intro!: body_spec_seq body_spec_deleted body_spec_skipped quiet_engine
                   quiet_human_like_delay)

lemma body_spec_select_delete: "body_spec (select_delete E cfg)"
  unfolding select_delete_def
  by (rule body_spec_seq[OF quiet_wait_first])
     (auto split: option.splits
           intro!: body_spec_seq body_spec_skipped quiet_engine quiet_human_like_delay
                   body_spec_confirm_deletion)

lemma body_spec_attempt_body: "body_spec (attempt_body E cfg post)"
  unfolding attempt_body_def
  by (intro body_spec_seq quiet_engine quiet_human_like_delay quiet_extract_post_info)
     (auto split: option.splits
           intro!: body_spec_seq body_spec_skipped body_spec_deleted quiet_engine
                   quiet_human_like_delay quiet_find_first body_spec_select_delete)

text \<open>The three outcomes of an attempt.\<close>

lemma attempt_post_deletion_cases:
  assumes "attempt_post_deletion E cfg post i st = res"
  obtains
    (Deleted) st' where "res = (Inr True, st')"
      "attempt_body E cfg post st = (Inr True, st')"
      "stats st' = deleted_one (stats st)" "history st' = history st @ [stats st']"
      "sessions st' = sessions st"
  | (Skipped) st' where "res = (Inr False, st')"
      "attempt_body E cfg post st = (Inr False, st')"
      "stats st' = skipped_one (stats st)" "history st' = history st @ [stats st']"
      "sessions st' = sessions st"
  | (Errored) e st1 st' where "res = (Inr False, st')"
      "attempt_body E cfg post st = (Inl e, st1)"
      "stats st' = error_one (stats st)" "history st' = history st @ [stats st']"
      "sessions st' = sessions st" "world st' = world st1" "calls st' = calls st1"
proof -
  obtain r st1 where b: "attempt_body E cfg post st = (r, st1)"
    by (cases "attempt_body E cfg post st")
  note spec = body_specD[OF body_spec_attempt_body b]
  show thesis
  proof (cases r)
    case (Inl e)
    let ?st' = "st1\<lparr>stats := error_one (stats st1), history := history st1 @ [error_one (stats st1)]\<rparr>"
    have "attempt_post_deletion E cfg post i st = (Inr False, ?st')"
      using b Inl
      by (simp add: attempt_post_deletion_def try_except_def seq_def count_error_def
                    set_stats_def ret_def)
    then show thesis using Errored[of ?st' e st1] b Inl spec assms by simp
  next
    case (Inr ok)
    have a: "attempt_post_deletion E cfg post i st = (Inr ok, st1)"
      using b Inr by (simp add: attempt_post_deletion_def try_except_def)
    show thesis
    proof (cases ok)
      case True
      then show thesis using Deleted[of st1] a b Inr spec assms by simp
    next
      case False
      then show thesis using Skipped[of st1] a b Inr spec assms by simp
    qed
  qed
qed

lemma seq_cases:
  obtains (Raise) e st1 where "m st = (Inl e, st1)" "seq m f st = (Inl e, st1)"
  | (Step) a st1 where "m st = (Inr a, st1)" "seq m f st = f a st1"
proof -
  obtain r st1 where m: "m st = (r, st1)" by (cases "m st")
  show thesis
  proof (cases r)
    case (Inl e)
    then show thesis using Raise[of e st1] m by (simp add: seq_def)
  next
    case (Inr a)
    then show thesis using Step[of a st1] m by (simp add: seq_def)
  qed
qed

lemma ledger_quiet:
  assumes "quiet m" and "m st = (r, st')" and "ledger s0 k st"
  shows "ledger s0 k st'"
  using quietD[OF assms(1,2)] assms(3) by (simp add: ledger_def del: last.simps)

lemma ledger_weaken: "ledger s0 k st \<Longrightarrow> j \<le> k \<Longrightarrow> ledger s0 j st"
  by (simp add: ledger_def del: last.simps)

lemma ledger_push:
  assumes "ledger s0 k st" and "stats st' = s'" and "history st' = history st @ [s']"
    and "stats_step (stats st) s'" and "attempted s' + j \<le> posts_found s'" and "0 \<le> j"
  shows "ledger s0 j st'"
proof -
  have acc: "accounted s'" using assms(5,6) by (simp add: accounted_def)
  have "successively stats_step ((s0 # history st) @ [s'])"
    using assms(1,4) unfolding ledger_def
    by (subst successively_append_iff) simp
  then show ?thesis
    using assms(1,2,3,5) acc by (simp add: ledger_def)
qed

lemma ledger_attempt:
  assumes "ledger s0 (k + 1) st" and "0 \<le> k"
  shows "ledger s0 k (snd (attempt_post_deletion E cfg post i st))"
  using refl[of "attempt_post_deletion E cfg post i st"]
proof (cases rule: attempt_post_deletion_cases)
  case (Deleted st')
  show ?thesis
    unfolding Deleted(1) snd_conv
  proof (rule ledger_push[OF assms(1) refl Deleted(4)])
    show "stats_step (stats st) (stats st')"
      by (simp add: Deleted(3) stats_step_def deleted_one_def)
    show "attempted (stats st') + k \<le> posts_found (stats st')"
      using assms(1) by (simp add: Deleted(3) ledger_def attempted_def deleted_one_def)
  qed (rule assms(2))
next
  case (Skipped st')
  show ?thesis
    unfolding Skipped(1) snd_conv
  proof (rule ledger_push[OF assms(1) refl Skipped(4)])
    show "stats_step (stats st) (stats st')"
      by (simp add: Skipped(3) stats_step_def skipped_one_def)
    show "attempted (stats st') + k \<le> posts_found (stats st')"
      using assms(1) by (simp add: Skipped(3) ledger_def attempted_def skipped_one_def)
  qed (rule assms(2))
next
  case (Errored e st1 st')
  show ?thesis
    unfolding Errored(1) snd_conv
  proof (rule ledger_push[OF assms(1) refl Errored(4)])
    show "stats_step (stats st) (stats st')"
      by (simp add: Errored(3) stats_step_def error_one_def)
    show "attempted (stats st') + k \<le> posts_found (stats st')"
      using assms(1) by (simp add: Errored(3) ledger_def attempted_def error_one_def)
  qed (rule assms(2))
qed

lemma attempt_returns:
  "fst (attempt_post_deletion E cfg post i st) = Inr True
   \<or> fst (attempt_post_deletion E cfg post i st) = Inr False"
  using refl[of "attempt_post_deletion E cfg post i st"]
  by (cases rule: attempt_post_deletion_cases) simp_all

lemma ledger_process_posts:
  assumes "ledger s0 (int (length ps)) st"
  shows "ledger s0 0 (snd (process_posts E cfg ps i n st))"
  using assms
proof (induction ps arbitrary: i n st)
  case Nil
  then show ?case by (simp add: ret_def)
next
  case (Cons p ps)
  obtain ok st1 where a: "attempt_post_deletion E cfg p i st = (Inr ok, st1)"
    using attempt_returns[of E cfg p i st]
    by (cases "attempt_post_deletion E cfg p i st") auto
  have l1: "ledger s0 (int (length ps)) st1"
    using ledger_attempt[of s0 "int (length ps)" st E cfg p i] Cons.prems a
    by (simp add: add.commute)
  show ?case
  proof (cases ok)
    case False
    then show ?thesis using a Cons.IH[OF l1] by (simp add: seq_def)
  next
    case True
    obtain d st2 where u: "random_uniform E (min_delete_delay cfg) (max_delete_delay cfg) st1 = (Inr d, st2)"
      by (cases "random_uniform E (min_delete_delay cfg) (max_delete_delay cfg) st1")
         (auto simp: random_uniform_def split: prod.splits)
    have l2: "ledger s0 (int (length ps)) st2"
      using ledger_quiet[OF quiet_random_uniform u l1] .
    obtain r3 st3 where s: "time_sleep d st2 = (r3, st3)" by (cases "time_sleep d st2")
    have l3: "ledger s0 (int (length ps)) st3"
      using ledger_quiet[OF quiet_time_sleep s l2] .
    show ?thesis
    proof (cases r3)
      case (Inl e)
      then show ?thesis using a True u s ledger_weaken[OF l3, of 0] by (simp add: seq_def)
    next
      case (Inr x)
      then show ?thesis using a True u s Cons.IH[OF l3] by (simp add: seq_def)
    qed
  qed
qed

lemma length_slice_to: "length (slice_to xs n) \<le> length xs"
  unfolding slice_to_def by (cases "0 \<le> n") simp_all

lemma quiet_remove_duplicates: "quiet (remove_duplicates E posts)"
  by (simp add: remove_duplicates_def quiet_unique_loop)

lemma ledger_find_posts_on_page:
  assumes "ledger s0 0 st" and "find_posts_on_page E st = (r, st')"
  shows "case r of Inl e \<Rightarrow> ledger s0 0 st' | Inr posts \<Rightarrow> ledger s0 (int (length posts)) st'"
proof -
  obtain r1 st1 where f: "find_by_selectors E post_selectors st = (r1, st1)"
    by (cases "find_by_selectors E post_selectors st")
  have l1: "ledger s0 0 st1" using ledger_quiet[OF quiet_find_by_selectors f assms(1)] .
  show ?thesis
  proof (cases r1)
    case (Inl e)
    then show ?thesis using assms(2) f l1 by (auto simp: find_posts_on_page_def seq_def)
  next
    case (Inr all_posts)
    obtain r2 st2 where u: "remove_duplicates E all_posts st1 = (r2, st2)"
      by (cases "remove_duplicates E all_posts st1")
    have l2: "ledger s0 0 st2" using ledger_quiet[OF quiet_remove_duplicates u l1] .
    show ?thesis
    proof (cases r2)
      case (Inl e)
      then show ?thesis using assms(2) f Inr u l2 by (auto simp: find_posts_on_page_def seq_def)
    next
      case (Inr unique_posts)
      let ?s = "(stats st2)\<lparr>posts_found := posts_found (stats st2) + int (length unique_posts)\<rparr>"
      have r: "r = Inr unique_posts" and st': "st' = st2\<lparr>stats := ?s, history := history st2 @ [?s]\<rparr>"
        using assms(2) f \<open>r1 = Inr all_posts\<close> u Inr
        by (auto simp: find_posts_on_page_def seq_def set_stats_def ret_def)
      have "ledger s0 (int (length unique_posts)) st'"
      proof (rule ledger_push[OF l2])
        show "stats st' = ?s" by (simp add: st')
        show "history st' = history st2 @ [?s]" by (simp add: st')
        show "stats_step (stats st2) ?s" by (simp add: stats_step_def)
        show "attempted ?s + int (length unique_posts) \<le> posts_found ?s"
          using l2 by (simp add: ledger_def attempted_def del: last.simps)
      qed simp
      then show ?thesis by (simp add: r)
    qed
  qed
qed

lemma ledger_delete_posts_batch:
  assumes "ledger s0 0 st"
  shows "ledger s0 0 (snd (delete_posts_batch E cfg max_posts st))"
proof -
  obtain r st1 where f: "find_posts_on_page E st = (r, st1)"
    by (cases "find_posts_on_page E st")
  note l = ledger_find_posts_on_page[OF assms f]
  show ?thesis
  proof (cases r)
    case (Inl e)
    then show ?thesis using f l by (simp add: delete_posts_batch_def seq_def)
  next
    case (Inr posts)
    show ?thesis
    proof (cases "posts = []")
      case True
      then show ?thesis using f l Inr by (simp add: delete_posts_batch_def seq_def ret_def)
    next
      case False
      have "ledger s0 (int (length (slice_to posts max_posts))) st1"
        using l Inr length_slice_to[of posts max_posts] by (auto intro: ledger_weaken)
      from ledger_process_posts[OF this]
      show ?thesis using f Inr False by (simp add: delete_posts_batch_def seq_def)
    qed
  qed
qed

lemma ledger_after:
  assumes "ledger s0 0 st" and "m st = (r, st')" and "quiet m"
  shows "ledger s0 0 st'"
  using ledger_quiet[OF assms(3,2,1)] .

lemma ledger_session_loop:
  assumes "ledger s0 0 st"
  shows "ledger s0 0 (snd (session_loop E cfg ss st))"
  using assms
proof (induction ss arbitrary: st)
  case Nil
  then show ?case by (simp add: ret_def)
next
  case (Cons session rest)
  obtain r1 st1 where a: "refresh_page E cfg session st = (r1, st1)"
    by (cases "refresh_page E cfg session st")
  have l1: "ledger s0 0 st1" using ledger_quiet[OF quiet_refresh_page a Cons.prems] .
  obtain r2 st2 where b: "delete_posts_batch E cfg (posts_per_session cfg) st1 = (r2, st2)"
    by (cases "delete_posts_batch E cfg (posts_per_session cfg) st1")
  have l2: "ledger s0 0 st2"
    using ledger_delete_posts_batch[OF l1, of E cfg "posts_per_session cfg"] b by simp
  show ?case
  proof (cases r1)
    case (Inl e)
    then show ?thesis using a l1 by (simp add: seq_def)
  next
    case r1: (Inr u)
    show ?thesis
    proof (cases r2)
      case (Inl e)
      then show ?thesis using a r1 b l2 by (simp add: seq_def)
    next
      case r2: (Inr session_deleted)
      let ?st3 = "st2\<lparr>sessions := sessions st2 @ [(session + 1, session_deleted)]\<rparr>"
      have l3: "ledger s0 0 ?st3" using l2 by (simp add: ledger_def del: last.simps)
      let ?s = "(stats ?st3)\<lparr>sessions_completed := sessions_completed (stats ?st3) + 1\<rparr>"
      let ?st4 = "?st3\<lparr>stats := ?s, history := history ?st3 @ [?s]\<rparr>"
      have l4: "ledger s0 0 ?st4"
      proof (rule ledger_push[OF l3])
        show "stats_step (stats ?st3) ?s" by (simp add: stats_step_def)
        show "attempted ?s + 0 \<le> posts_found ?s"
          using l3 by (simp add: ledger_def attempted_def del: last.simps)
      qed simp_all
      obtain r5 st5 where p: "session_pause cfg session ?st4 = (r5, st5)"
        by (cases "session_pause cfg session ?st4")
      have l5: "ledger s0 0 st5" using ledger_quiet[OF quiet_session_pause p l4] .
      have step: "session_loop E cfg (session # rest) st =
          (case r5 of Inl e \<Rightarrow> (Inl e, st5)
           | Inr _ \<Rightarrow> if session_deleted = 0 then (Inr (), st5) else session_loop E cfg rest st5)"
        using a r1 b r2 p
        by (simp add: seq_def log_session_def count_session_def set_stats_def ret_def
                 split: sum.splits)
      show ?thesis
        unfolding step using l5 Cons.IH[OF l5] by (simp split: sum.splits)
    qed
  qed
qed

lemma quiet_get_final_stats: "quiet (get_final_stats E)"
  by (simp add: quiet_def get_final_stats_def split: prod.splits)

lemma ledger_clean_profile_gradually:
  assumes "ledger s0 0 st"
  shows "ledger s0 0 (snd (clean_profile_gradually E cfg st))"
proof -
  obtain ok1 st1 where a: "collaborator Login (login E) st = (Inr ok1, st1)"
    by (cases "collaborator Login (login E) st") (auto simp: collaborator_def split: prod.splits)
  have l1: "ledger s0 0 st1" using ledger_quiet[OF quiet_collaborator a assms] .
  obtain ok2 st2 where b: "collaborator Navigate (navigate_to_activity_log E) st1 = (Inr ok2, st2)"
    by (cases "collaborator Navigate (navigate_to_activity_log E) st1")
       (auto simp: collaborator_def split: prod.splits)
  have l2: "ledger s0 0 st2" using ledger_quiet[OF quiet_collaborator b l1] .
  have fin: "\<And>s. ledger s0 0 s \<Longrightarrow> ledger s0 0 (snd (get_final_stats E s))"
    using ledger_quiet[OF quiet_get_final_stats] by (metis prod.collapse)
  obtain r3 st3 where c: "session_loop E cfg [0 .. max_sessions cfg - 1] st2 = (r3, st3)"
    by (cases "session_loop E cfg [0 .. max_sessions cfg - 1] st2")
  have l3: "ledger s0 0 st3"
    using ledger_session_loop[OF l2, of E cfg "[0 .. max_sessions cfg - 1]"] c by simp
  show ?thesis
    using a b c fin[OF l1] fin[OF l2] fin[OF l3] l3
    by (simp add: clean_profile_gradually_def seq_def split: sum.splits)
qed

lemma ledger_new_cleaner: "ledger (stats (new_cleaner E w)) 0 (new_cleaner E w)"
  by (simp add: new_cleaner_def ledger_def accounted_def attempted_def split: prod.splits)


section \<open>The calls a statement issues\<close>

lemma emitsD: "emits P m \<Longrightarrow> m st = (r, st') \<Longrightarrow> \<exists>cs. calls st' = calls st @ cs \<and> list_all P cs"
  unfolding emits_def by (metis snd_conv)

lemma emits_ret: "emits P (ret a)"
  by (simp add: emits_def ret_def)

lemma emits_engine: "P c \<Longrightarrow> emits P (engine c f)"
  by (simp add: emits_def engine_def split: prod.splits)

lemma emits_set_stats: "emits P (set_stats f)"
  by (simp add: emits_def set_stats_def)

lemma emits_random_uniform: "emits P (random_uniform E a b)"
  by (simp add: emits_def random_uniform_def split: prod.splits)

lemma emits_time_sleep: "P (Sleep d) \<Longrightarrow> emits P (time_sleep d)"
  by (simp add: emits_def time_sleep_def)

lemma emits_seq:
  assumes "emits P m" and "\<And>a. emits P (f a)"
  shows "emits P (seq m f)"
  unfolding emits_def
proof
  fix st
  obtain r st1 where m: "m st = (r, st1)" by (cases "m st")
  obtain cs where cs: "calls st1 = calls st @ cs" "list_all P cs"
    using emitsD[OF assms(1) m] by blast
  show "\<exists>cs. calls (snd (seq m f st)) = calls st @ cs \<and> list_all P cs"
  proof (cases r)
    case (Inl e)
    then show ?thesis using m cs by (auto simp: seq_def)
  next
    case (Inr a)
    obtain r2 st2 where f: "f a st1 = (r2, st2)" by (cases "f a st1")
    obtain ds where ds: "calls st2 = calls st1 @ ds" "list_all P ds"
      using emitsD[OF assms(2) f] by blast
    have "calls (snd (seq m f st)) = calls st @ (cs @ ds)"
      using m Inr f cs ds by (simp add: seq_def)
    moreover have "list_all P (cs @ ds)" using cs ds by simp
    ultimately show ?thesis by blast
  qed
qed

lemma emits_try_except:
  assumes "emits P m" and "\<And>e. emits P (h e)"
  shows "emits P (try_except m h)"
  unfolding emits_def
proof
  fix st
  obtain r st1 where m: "m st = (r, st1)" by (cases "m st")
  obtain cs where cs: "calls st1 = calls st @ cs" "list_all P cs"
    using emitsD[OF assms(1) m] by blast
  show "\<exists>cs. calls (snd (try_except m h st)) = calls st @ cs \<and> list_all P cs"
  proof (cases r)
    case (Inr a)
    then show ?thesis using m cs by (auto simp: try_except_def)
  next
    case (Inl e)
    obtain r2 st2 where f: "h e st1 = (r2, st2)" by (cases "h e st1")
    obtain ds where ds: "calls st2 = calls st1 @ ds" "list_all P ds"
      using emitsD[OF assms(2) f] by blast
    have "calls (snd (try_except m h st)) = calls st @ (cs @ ds)"
      using m Inl f cs ds by (simp add: try_except_def)
    moreover have "list_all P (cs @ ds)" using cs ds by simp
    ultimately show ?thesis by blast
  qed
qed

lemma emits_human_like_delay: "(\<And>d. P (Sleep d)) \<Longrightarrow> emits P (human_like_delay E cfg a b)"
  by (simp add: human_like_delay_def Let_def emits_seq emits_random_uniform emits_time_sleep)

lemma emits_find_first:
  fixes E :: "('w, 'e) env"
  assumes "\<And>s. s \<in> set sels \<Longrightarrow> P (FindElement post s)"
  shows "emits P (find_first E post sels)"
  using assms
proof (induction sels)
  case Nil
  show ?case by (simp add: emits_def)
next
  case (Cons s sels)
  have ih: "emits P (find_first E post sels)" using Cons by simp
  show ?case
    unfolding emits_def
  proof
    fix st :: "('w, 'e) cleaner"
    obtain r st1 where e: "engine (FindElement post s) (elem_find_element E post s) st = (r, st1)"
      by (cases "engine (FindElement post s) (elem_find_element E post s) st")
    have c1: "calls st1 = calls st @ [FindElement post s]"
      using e by (auto simp: engine_def split: prod.splits)
    obtain r2 st2 where f: "find_first E post sels st1 = (r2, st2)"
      by (cases "find_first E post sels st1")
    obtain ds where ds: "calls st2 = calls st1 @ ds" "list_all P ds"
      using emitsD[OF ih f] by blast
    have p: "P (FindElement post s)" using Cons.prems by simp
    have "calls (snd (find_first E post (s # sels) st)) = calls st @ [FindElement post s]
        \<or> calls (snd (find_first E post (s # sels) st)) = calls st @ (FindElement post s # ds)"
      using e c1 f ds by (auto split: sum.splits exc.splits)
    moreover have "list_all P [FindElement post s]" "list_all P (FindElement post s # ds)"
      using p ds(2) by simp_all
    ultimately show "\<exists>cs. calls (snd (find_first E post (s # sels) st)) = calls st @ cs \<and> list_all P cs"
      by blast
  qed
qed

lemma observes_simps:
  "observes post (ExecuteScript scroll_script post)" "observes post (Sleep d)"
  "observes post (GetText e)" "observes post (GetAttribute e ''title'')"
  "s \<in> set timestamp_selectors \<Longrightarrow> observes post (FindElement post s)"
  by (simp_all add: observes_def)

lemma emits_read_timestamp:
  assumes "P (FindElement post s)" and "\<And>e. P (GetAttribute e ''title'')" and "\<And>e. P (GetText e)"
  shows "emits P (read_timestamp E post s)"
  unfolding read_timestamp_def
  by (intro emits_seq emits_engine assms) (simp add: emits_ret emits_seq emits_engine assms)

lemma emits_timestamp_loop:
  fixes E :: "('w, 'e) env"
  assumes "\<And>s. s \<in> set sels \<Longrightarrow> P (FindElement post s)"
    and "\<And>e. P (GetAttribute e ''title'')" and "\<And>e. P (GetText e)"
  shows "emits P (timestamp_loop E post sels)"
  using assms(1)
proof (induction sels)
  case Nil
  show ?case by (simp add: emits_def)
next
  case (Cons s sels)
  have ih: "emits P (timestamp_loop E post sels)" using Cons by simp
  have hd: "emits P (read_timestamp E post s)"
    by (rule emits_read_timestamp) (simp_all add: Cons.prems assms(2,3))
  show ?case
    unfolding emits_def
  proof
    fix st :: "('w, 'e) cleaner"
    obtain r st1 where e: "read_timestamp E post s st = (r, st1)"
      by (cases "read_timestamp E post s st")
    obtain cs where cs: "calls st1 = calls st @ cs" "list_all P cs"
      using emitsD[OF hd e] by blast
    obtain r2 st2 where f: "timestamp_loop E post sels st1 = (r2, st2)"
      by (cases "timestamp_loop E post sels st1")
    obtain ds where ds: "calls st2 = calls st1 @ ds" "list_all P ds"
      using emitsD[OF ih f] by blast
    have "calls (snd (timestamp_loop E post (s # sels) st)) = calls st @ cs
        \<or> calls (snd (timestamp_loop E post (s # sels) st)) = calls st @ (cs @ ds)"
      using e cs(1) f ds(1) by (auto split: sum.splits exc.splits)
    moreover have "list_all P (cs @ ds)" using cs(2) ds(2) by simp
    ultimately show "\<exists>cs. calls (snd (timestamp_loop E post (s # sels) st)) = calls st @ cs
                        \<and> list_all P cs"
      using cs(2) by blast
  qed
qed

lemma emits_extract_post_info: "emits (observes post) (extract_post_info E post)"
  unfolding extract_post_info_def
  by (intro emits_try_except emits_seq emits_engine emits_timestamp_loop emits_ret)
     (simp_all add: observes_simps)

lemma extract_post_info_returns: "fst (extract_post_info E post st) = Inr ()"
  by (simp add: extract_post_info_def try_except_def ret_def split: prod.splits sum.splits)

text \<open>The pauses of the cleaner: what \<open>human_like_delay\<close> does within the range of \<open>time.sleep\<close>.\<close>

lemma uniform_bounds:
  assumes "a \<le> b"
  shows "a \<le> uniform a b u" and "uniform a b u \<le> b"
proof -
  have r: "0 \<le> Rep_unit_real u" "Rep_unit_real u < 1"
    using Rep_unit_real[of u] by simp_all
  show "a \<le> uniform a b u" using assms r(1) by (simp add: uniform_def)
  have "(b - a) * Rep_unit_real u \<le> (b - a) * 1"
    using assms r(2) by (intro mult_left_mono) simp_all
  then show "uniform a b u \<le> b" by (simp add: uniform_def)
qed

lemma human_like_delay_exact:
  assumes "0 \<le> a" and "a \<le> b" and "b * 1000000000 \<le> 9223372036854775807"
  shows "human_like_delay E cfg (Some a) (Some b) st =
           (Inr (), st\<lparr>world := snd (random_random E (world st)),
                       calls := calls st @ [Sleep (uniform a b (fst (random_random E (world st))))]\<rparr>)"
proof -
  let ?u = "fst (random_random E (world st))"
  have lo: "0 \<le> uniform a b ?u" using uniform_bounds(1)[OF assms(2), of ?u] assms(1) by simp
  have hi: "uniform a b ?u * 1000000000 \<le> 9223372036854775807"
    using uniform_bounds(2)[OF assms(2), of ?u] assms(3) by simp
  have ok: "\<not> sleep_overflows (uniform a b ?u)" "\<not> uniform a b ?u < 0"
    using lo hi by (simp_all add: sleep_overflows_def)
  obtain u w1 where d: "random_random E (world st) = (u, w1)"
    by (cases "random_random E (world st)")
  show ?thesis
    using ok by (simp add: human_like_delay_def seq_def random_uniform_def time_sleep_def d)
qed

lemma human_like_delay_returns:
  assumes "0 \<le> a" and "a \<le> b" and "b * 1000000000 \<le> 9223372036854775807"
  shows "fst (human_like_delay E cfg (Some a) (Some b) st) = Inr ()"
  by (simp add: human_like_delay_exact[OF assms])

lemma whatif_body:
  assumes "whatif cfg"
  shows "attempt_body E cfg post =
     seq (engine (ExecuteScript scroll_script post) (drv_execute_script E scroll_script post)) (\<lambda>_.
     seq (human_like_delay E cfg (Some 1) (Some 2)) (\<lambda>_.
     seq (extract_post_info E post) (\<lambda>_.
     seq count_deleted (\<lambda>_. ret True))))"
  using assms by (simp add: attempt_body_def)

lemma emits_whatif_attempt:
  assumes "whatif cfg"
  shows "emits (observes post) (attempt_post_deletion E cfg post i)"
  unfolding attempt_post_deletion_def whatif_body[OF assms] count_deleted_def count_error_def
  by (intro emits_try_except emits_seq emits_engine emits_human_like_delay
            emits_extract_post_info emits_set_stats emits_ret observes_simps)

section \<open>Evaluating runs on the simulated page\<close>

lemmas run_simps = sim_def sim_click_def sim_wait_def remove_post_def page0_def cfg0_def
  new_cleaner_def engine_def collaborator_def set_stats_def seq_def ret_def try_except_def
  random_uniform_def uniform_def time_sleep_def sleep_overflows_def human_like_delay_def
  draw_half.rep_eq attempt_post_deletion_def attempt_body_def extract_post_info_def
  read_timestamp_def
  timestamp_selectors_def menu_selectors_def delete_selectors_def confirm_selectors_def
  select_delete_def confirm_deletion_def count_deleted_def count_skipped_def count_error_def
  scroll_script_def deleted_one_def skipped_one_def error_one_def dom_id_def

lemma sim_sel:
  "drv_find_elements sim sel w = (Inr (if sel = ''[role='article']'' then listed w else []), w)"
  "elem_get_attribute sim e a w =
     (Inr (if a = ''id'' then Some (dom_id e) else None), w)"
  "elem_text sim e w = (Inr ''A post'', w)"
  "drv_execute_script sim js e w =
     (if e \<in> set (stale w) then Inl (WebDriverException ''stale element reference'') else Inr (), w)"
  "elem_find_element sim e sel w =
     (if sel = ''[aria-haspopup='menu']'' then Inr (1000 + e) else Inl NoSuchElementException, w)"
  "wait_until_clickable sim = sim_wait"
  "elem_click sim = sim_click"
  "actions_click sim e w = (Inr (), w\<lparr>menu_of := Some (e - 1000)\<rparr>)"
  "drv_refresh sim w = (Inr (), w)"
  "wait_for_page_load sim w = (Inr (), w)"
  "login sim w = (can_login w, w)"
  "navigate_to_activity_log sim w = (can_navigate w, w)"
  "random_random sim w = (draw_half, w)"
  "datetime_now sim w = (clock w, w\<lparr>clock := clock w + clock_step w\<rparr>)"
  "str_hash sim s = ''5740354900026072187''"
  by (simp_all add: sim_def)

lemma upto_0_2: "[0 .. 2] = [0, 1, 2::int]"
  by (simp add: upto.simps)

lemmas eval_simps = sim_sel sim_click_def sim_wait_def remove_post_def page0_def cfg0_def
  new_cleaner_def engine_def collaborator_def set_stats_def seq_def ret_def try_except_def
  random_uniform_def uniform_def time_sleep_def human_like_delay_def draw_half.rep_eq
  attempt_post_deletion_def attempt_body_def extract_post_info_def
  timestamp_selectors_def menu_selectors_def delete_selectors_def confirm_selectors_def
  select_delete_def confirm_deletion_def count_deleted_def count_skipped_def count_error_def
  scroll_script_def deleted_one_def skipped_one_def error_one_def
  read_timestamp_def sleep_overflows_def
  delete_posts_batch_def find_posts_on_page_def
  post_selectors_def remove_duplicates_def element_id_def truthy_def slice_to_def
  session_pause_def refresh_page_def log_session_def count_session_def
  clean_profile_gradually_def get_final_stats_def final_stats_at_def truediv_def
  total_seconds_def one_post_def upto_0_2 dom_id_def

section \<open>The final statistics always exist\<close>

lemma final_stats_at_returns:
  "\<exists>fs. final_stats_at s t = Inr fs \<and> stats.truncate fs = s"
  by (simp add: final_stats_at_def truediv_def Let_def stats.defs)

lemma get_final_stats_result:
  "\<exists>fs. get_final_stats E st = (Inr fs, st\<lparr>world := snd (datetime_now E (world st))\<rparr>)
        \<and> stats.truncate fs = stats st"
proof -
  obtain t w where n: "datetime_now E (world st) = (t, w)" by (cases "datetime_now E (world st)")
  obtain fs where "final_stats_at (stats st) t = Inr fs" "stats.truncate fs = stats st"
    using final_stats_at_returns by blast
  then show ?thesis using n by (simp add: get_final_stats_def)
qed


section \<open>The exceptions the engine raises during an attempt\<close>

lemma mildD: "mild H m \<Longrightarrow> m st = (r, st') \<Longrightarrow> \<exists>fs. faults st' = faults st @ fs \<and> list_all H fs"
  unfolding mild_def by (metis snd_conv)

lemma mild_ret: "mild H (ret a)"
  by (simp add: mild_def ret_def)

lemma mild_engine: "(\<And>e. H (c, e)) \<Longrightarrow> mild H (engine c f)"
  by (auto simp: mild_def engine_def split: prod.splits sum.splits)

lemma mild_seq:
  assumes "mild H m" and "\<And>a. mild H (f a)"
  shows "mild H (seq m f)"
  unfolding mild_def
proof
  fix st
  obtain r st1 where m: "m st = (r, st1)" by (cases "m st")
  obtain fs where fs: "faults st1 = faults st @ fs" "list_all H fs"
    using mildD[OF assms(1) m] by blast
  show "\<exists>fs. faults (snd (seq m f st)) = faults st @ fs \<and> list_all H fs"
  proof (cases r)
    case (Inl e)
    then show ?thesis using m fs by (auto simp: seq_def)
  next
    case (Inr a)
    obtain r2 st2 where f: "f a st1 = (r2, st2)" by (cases "f a st1")
    obtain gs where gs: "faults st2 = faults st1 @ gs" "list_all H gs"
      using mildD[OF assms(2) f] by blast
    have "faults (snd (seq m f st)) = faults st @ (fs @ gs)"
      using m Inr f fs gs by (simp add: seq_def)
    moreover have "list_all H (fs @ gs)" using fs gs by simp
    ultimately show ?thesis by blast
  qed
qed

lemma mild_read_timestamp:
  assumes "\<And>e. H (FindElement post s, e)" and "\<And>x e. H (GetAttribute x ''title'', e)"
    and "\<And>x e. H (GetText x, e)"
  shows "mild H (read_timestamp E post s)"
  unfolding read_timestamp_def
  by (intro mild_seq mild_engine assms) (simp add: mild_ret mild_seq mild_engine assms)

lemma mild_timestamp_loop:
  fixes E :: "('w, 'e) env"
  assumes "\<And>s e. s \<in> set sels \<Longrightarrow> H (FindElement post s, e)"
    and "\<And>x e. H (GetAttribute x ''title'', e)" and "\<And>x e. H (GetText x, e)"
  shows "mild H (timestamp_loop E post sels)"
  using assms(1)
proof (induction sels)
  case Nil
  show ?case by (simp add: mild_def)
next
  case (Cons s sels)
  have ih: "mild H (timestamp_loop E post sels)" using Cons by simp
  have hd: "mild H (read_timestamp E post s)"
    by (rule mild_read_timestamp) (simp_all add: Cons.prems assms(2,3))
  show ?case
    unfolding mild_def
  proof
    fix st :: "('w, 'e) cleaner"
    obtain r st1 where e: "read_timestamp E post s st = (r, st1)"
      by (cases "read_timestamp E post s st")
    obtain fs where fs: "faults st1 = faults st @ fs" "list_all H fs"
      using mildD[OF hd e] by blast
    obtain r2 st2 where f: "timestamp_loop E post sels st1 = (r2, st2)"
      by (cases "timestamp_loop E post sels st1")
    obtain gs where gs: "faults st2 = faults st1 @ gs" "list_all H gs"
      using mildD[OF ih f] by blast
    have "faults (snd (timestamp_loop E post (s # sels) st)) = faults st @ fs
        \<or> faults (snd (timestamp_loop E post (s # sels) st)) = faults st @ (fs @ gs)"
      using e fs(1) f gs(1) by (auto split: sum.splits exc.splits)
    moreover have "list_all H (fs @ gs)" using fs(2) gs(2) by simp
    ultimately show "\<exists>fs. faults (snd (timestamp_loop E post (s # sels) st)) = faults st @ fs
                        \<and> list_all H fs"
      using fs(2) by blast
  qed
qed

lemma handled_simps:
  "handled_in_place (GetText x, e)" "handled_in_place (GetAttribute x a, e)"
  "s \<in> set timestamp_selectors \<Longrightarrow> handled_in_place (FindElement post s, e)"
  "handled_in_place (FindElement post s, NoSuchElementException)"
  "handled_in_place (WaitClickable s, TimeoutException)"
  "\<not> handled_in_place (ExecuteScript js x, e)"
  "\<not> handled_in_place (Click x, e)" "\<not> handled_in_place (ActionsClick x, e)"
  "s \<notin> set timestamp_selectors \<Longrightarrow> e \<noteq> NoSuchElementException
     \<Longrightarrow> \<not> handled_in_place (FindElement post s, e)"
  "e \<noteq> TimeoutException \<Longrightarrow> \<not> handled_in_place (WaitClickable s, e)"
  by (simp_all add: handled_in_place_def)

lemma mild_extract_body:
  "mild handled_in_place
     (seq (engine (GetText post) (elem_text E post)) (\<lambda>_.
      seq (timestamp_loop E post timestamp_selectors) (\<lambda>_.
      seq (engine (GetText post) (elem_text E post)) (\<lambda>_. ret ()))))"
  by (intro mild_seq mild_engine mild_timestamp_loop mild_ret) (simp_all add: handled_simps)

lemma faultingD:
  assumes "faulting H m" and "m st = (r, st')"
  shows "case r of
       Inr a \<Rightarrow> (\<exists>fs. faults st' = faults st @ fs \<and> list_all H fs)
     | Inl e \<Rightarrow> (\<exists>fs c. faults st' = faults st @ fs @ [(c, e)] \<and> list_all H fs
                            \<and> \<not> H (c, e) \<and> calls st' \<noteq> [] \<and> last (calls st') = c)"
proof -
  from assms(1) have "case m st of
       (Inr a, st') \<Rightarrow> (\<exists>fs. faults st' = faults st @ fs \<and> list_all H fs)
     | (Inl e, st') \<Rightarrow> (\<exists>fs c. faults st' = faults st @ fs @ [(c, e)] \<and> list_all H fs
                            \<and> \<not> H (c, e) \<and> calls st' \<noteq> [] \<and> last (calls st') = c)"
    unfolding faulting_def by (rule spec)
  then show ?thesis using assms(2) by (simp split: sum.splits)
qed

lemma faulting_ret: "faulting H (ret a)"
  by (simp add: faulting_def ret_def)

lemma faulting_set_stats: "faulting H (set_stats f)"
  by (simp add: faulting_def set_stats_def)

lemma faulting_engine: "(\<And>e. \<not> H (c, e)) \<Longrightarrow> faulting H (engine c f)"
  by (auto simp: faulting_def engine_def split: prod.splits sum.splits)

lemma faulting_seq:
  assumes "faulting H m" and "\<And>a. faulting H (f a)"
  shows "faulting H (seq m f)"
  unfolding faulting_def
proof
  fix st
  obtain r st1 where m: "m st = (r, st1)" by (cases "m st")
  note d1 = faultingD[OF assms(1) m]
  show "case seq m f st of
       (Inr a, st') \<Rightarrow> (\<exists>fs. faults st' = faults st @ fs \<and> list_all H fs)
     | (Inl e, st') \<Rightarrow> (\<exists>fs c. faults st' = faults st @ fs @ [(c, e)] \<and> list_all H fs
                            \<and> \<not> H (c, e) \<and> calls st' \<noteq> [] \<and> last (calls st') = c)"
  proof (cases r)
    case (Inl e)
    then show ?thesis using m d1 by (simp add: seq_def)
  next
    case (Inr a)
    obtain fs where fs: "faults st1 = faults st @ fs" "list_all H fs"
      using d1 Inr by auto
    obtain r2 st2 where f: "f a st1 = (r2, st2)" by (cases "f a st1")
    note d2 = faultingD[OF assms(2) f]
    have s: "seq m f st = (r2, st2)" using m Inr f by (simp add: seq_def)
    show ?thesis
    proof (cases r2)
      case (Inr b)
      obtain gs where gs: "faults st2 = faults st1 @ gs" "list_all H gs"
        using d2 Inr by auto
      have "faults st2 = faults st @ (fs @ gs)" "list_all H (fs @ gs)"
        using fs gs by simp_all
      then show ?thesis unfolding s Inr by (simp only: prod.case sum.case) blast
    next
      case (Inl e)
      obtain gs c where gs: "faults st2 = faults st1 @ gs @ [(c, e)]" "list_all H gs"
          "\<not> H (c, e)" "calls st2 \<noteq> []" "last (calls st2) = c"
        using d2 Inl by auto
      have "faults st2 = faults st @ (fs @ gs) @ [(c, e)]" "list_all H (fs @ gs)"
        using fs gs by simp_all
      then show ?thesis unfolding s Inl using gs(3,4,5) by (simp only: prod.case sum.case) blast
    qed
  qed
qed

text \<open>A statement that always returns, after engine exceptions that satisfy H only.\<close>

lemma faulting_returning:
  assumes "mild H m" and "\<And>st. \<exists>a. fst (m st) = Inr a"
  shows "faulting H m"
  unfolding faulting_def
proof
  fix st
  obtain a where a: "fst (m st) = Inr a" using assms(2) by blast
  obtain st' where m: "m st = (Inr a, st')" using a by (cases "m st") simp
  show "case m st of
       (Inr a, st') \<Rightarrow> (\<exists>fs. faults st' = faults st @ fs \<and> list_all H fs)
     | (Inl e, st') \<Rightarrow> (\<exists>fs c. faults st' = faults st @ fs @ [(c, e)] \<and> list_all H fs
                            \<and> \<not> H (c, e) \<and> calls st' \<noteq> [] \<and> last (calls st') = c)"
    using mildD[OF assms(1) m] m by simp
qed

lemma mild_try_except_ret:
  assumes "mild H m"
  shows "mild H (try_except m (\<lambda>e. ret a))"
  unfolding mild_def
proof
  fix st
  obtain r st1 where m: "m st = (r, st1)" by (cases "m st")
  show "\<exists>fs. faults (snd (try_except m (\<lambda>e. ret a) st)) = faults st @ fs \<and> list_all H fs"
    using mildD[OF assms m] m by (cases r) (simp_all add: try_except_def ret_def)
qed

lemma faulting_extract_post_info: "faulting handled_in_place (extract_post_info E post)"
proof (rule faulting_returning)
  show "mild handled_in_place (extract_post_info E post)"
    unfolding extract_post_info_def by (rule mild_try_except_ret[OF mild_extract_body])
  show "\<And>st. \<exists>a. fst (extract_post_info E post st) = Inr a"
    by (simp add: extract_post_info_returns)
qed

lemma faulting_pause:
  assumes "0 \<le> a" and "a \<le> b" and "b * 1000000000 \<le> 9223372036854775807"
  shows "faulting H (human_like_delay E cfg (Some a) (Some b))"
  by (simp add: faulting_def human_like_delay_exact[OF assms])

lemma engine_result:
  assumes "engine c f st = (r, st1)"
  shows "calls st1 = calls st @ [c]"
    and "faults st1 = (case r of Inl e \<Rightarrow> faults st @ [(c, e)] | Inr a \<Rightarrow> faults st)"
  using assms by (auto simp: engine_def split: prod.splits)

lemma faulting_find_first:
  fixes E :: "('w, 'e) env"
  assumes "\<And>s. s \<in> set sels \<Longrightarrow> s \<notin> set timestamp_selectors"
  shows "faulting handled_in_place (find_first E post sels)"
  using assms
proof (induction sels)
  case Nil
  show ?case by (simp add: faulting_def)
next
  case (Cons s sels)
  have ih: "faulting handled_in_place (find_first E post sels)" using Cons by simp
  have s: "s \<notin> set timestamp_selectors" using Cons.prems by simp
  show ?case
    unfolding faulting_def
  proof
    fix st :: "('w, 'e) cleaner"
    let ?c = "FindElement post s"
    obtain r st1 where e: "engine ?c (elem_find_element E post s) st = (r, st1)"
      by (cases "engine ?c (elem_find_element E post s) st")
    note er = engine_result[OF e]
    show "case find_first E post (s # sels) st of
       (Inr a, st') \<Rightarrow> (\<exists>fs. faults st' = faults st @ fs \<and> list_all handled_in_place fs)
     | (Inl e, st') \<Rightarrow> (\<exists>fs c. faults st' = faults st @ fs @ [(c, e)]
                            \<and> list_all handled_in_place fs
                            \<and> \<not> handled_in_place (c, e) \<and> calls st' \<noteq> [] \<and> last (calls st') = c)"
    proof (cases r)
      case (Inr x)
      then show ?thesis using e er by simp
    next
      case (Inl x)
      show ?thesis
      proof (cases "x = NoSuchElementException")
        case False
        have "find_first E post (s # sels) st = (Inl x, st1)"
          using e Inl False by (cases x) simp_all
        moreover have "faults st1 = faults st @ [] @ [(?c, x)]" using er Inl by simp
        moreover have "\<not> handled_in_place (?c, x)" using s False by (simp add: handled_simps)
        ultimately show ?thesis using er(1) by (simp only: prod.case sum.case) force
      next
        case True
        obtain r2 st2 where f: "find_first E post sels st1 = (r2, st2)"
          by (cases "find_first E post sels st1")
        have step: "find_first E post (s # sels) st = (r2, st2)"
          using e Inl True f by simp
        have f1: "faults st1 = faults st @ [(?c, NoSuchElementException)]"
          using er Inl True by simp
        note d = faultingD[OF ih f]
        show ?thesis
        proof (cases r2)
          case (Inr y)
          obtain gs where gs: "faults st2 = faults st1 @ gs" "list_all handled_in_place gs"
            using d Inr by auto
          have "faults st2 = faults st @ ((?c, NoSuchElementException) # gs)"
               "list_all handled_in_place ((?c, NoSuchElementException) # gs)"
            using f1 gs by (simp_all add: handled_simps)
          then show ?thesis unfolding step Inr by (simp only: prod.case sum.case) blast
        next
          case (Inl y)
          obtain gs c where gs: "faults st2 = faults st1 @ gs @ [(c, y)]"
              "list_all handled_in_place gs" "\<not> handled_in_place (c, y)"
              "calls st2 \<noteq> []" "last (calls st2) = c"
            using d Inl by auto
          have "faults st2 = faults st @ ((?c, NoSuchElementException) # gs) @ [(c, y)]"
               "list_all handled_in_place ((?c, NoSuchElementException) # gs)"
            using f1 gs by (simp_all add: handled_simps)
          then show ?thesis unfolding step Inl using gs(3,4,5)
            by (simp only: prod.case sum.case) blast
        qed
      qed
    qed
  qed
qed

lemma faulting_wait_first:
  fixes E :: "('w, 'e) env"
  shows "faulting (handled_in_place :: 'e call \<times> exc \<Rightarrow> bool) (wait_first E sels)"
proof (induction sels)
  case Nil
  show ?case by (simp add: faulting_def)
next
  case (Cons s sels)
  note ih = Cons.IH
  show ?case
    unfolding faulting_def
  proof
    fix st :: "('w, 'e) cleaner"
    let ?c = "WaitClickable s :: 'e call"
    obtain r st1 where e: "engine ?c (wait_until_clickable E s) st = (r, st1)"
      by (cases "engine ?c (wait_until_clickable E s) st")
    note er = engine_result[OF e]
    show "case wait_first E (s # sels) st of
       (Inr a, st') \<Rightarrow> (\<exists>fs. faults st' = faults st @ fs \<and> list_all handled_in_place fs)
     | (Inl e, st') \<Rightarrow> (\<exists>fs c. faults st' = faults st @ fs @ [(c, e)]
                            \<and> list_all handled_in_place fs
                            \<and> \<not> handled_in_place (c, e) \<and> calls st' \<noteq> [] \<and> last (calls st') = c)"
    proof (cases r)
      case (Inr x)
      then show ?thesis using e er by simp
    next
      case (Inl x)
      show ?thesis
      proof (cases "x = TimeoutException")
        case False
        have "wait_first E (s # sels) st = (Inl x, st1)"
          using e Inl False by (cases x) simp_all
        moreover have "faults st1 = faults st @ [] @ [(?c, x)]" using er Inl by simp
        moreover have "\<not> handled_in_place (?c, x)" using False by (simp add: handled_simps)
        ultimately show ?thesis using er(1) by (simp only: prod.case sum.case) force
      next
        case True
        obtain r2 st2 where f: "wait_first E sels st1 = (r2, st2)"
          by (cases "wait_first E sels st1")
        have step: "wait_first E (s # sels) st = (r2, st2)"
          using e Inl True f by simp
        have f1: "faults st1 = faults st @ [(?c, TimeoutException)]"
          using er Inl True by simp
        note d = faultingD[OF ih f]
        show ?thesis
        proof (cases r2)
          case (Inr y)
          obtain gs where gs: "faults st2 = faults st1 @ gs" "list_all handled_in_place gs"
            using d Inr by auto
          have "faults st2 = faults st @ ((?c, TimeoutException) # gs)"
               "list_all handled_in_place ((?c, TimeoutException) # gs)"
            using f1 gs by (simp_all add: handled_simps)
          then show ?thesis unfolding step Inr by (simp only: prod.case sum.case) blast
        next
          case (Inl y)
          obtain gs c where gs: "faults st2 = faults st1 @ gs @ [(c, y)]"
              "list_all handled_in_place gs" "\<not> handled_in_place (c, y)"
              "calls st2 \<noteq> []" "last (calls st2) = c"
            using d Inl by auto
          have "faults st2 = faults st @ ((?c, TimeoutException) # gs) @ [(c, y)]"
               "list_all handled_in_place ((?c, TimeoutException) # gs)"
            using f1 gs by (simp_all add: handled_simps)
          then show ?thesis unfolding step Inl using gs(3,4,5)
            by (simp only: prod.case sum.case) blast
        qed
      qed
    qed
  qed
qed

lemma menu_not_timestamp: "s \<in> set menu_selectors \<Longrightarrow> s \<notin> set timestamp_selectors"
  by (auto simp: menu_selectors_def timestamp_selectors_def)

lemma faulting_count: "faulting H (seq (set_stats f) (\<lambda>_. ret b))"
  by (intro faulting_seq faulting_set_stats faulting_ret)

lemma faulting_confirm_deletion: "faulting handled_in_place (confirm_deletion E cfg)"
  unfolding confirm_deletion_def count_deleted_def count_skipped_def
  by (rule faulting_seq[OF faulting_wait_first])
     (auto split: option.splits
           intro!: faulting_seq faulting_engine faulting_pause faulting_set_stats faulting_ret
           simp: handled_simps)

lemma faulting_select_delete: "faulting handled_in_place (select_delete E cfg)"
  unfolding select_delete_def count_skipped_def
  by (rule faulting_seq[OF faulting_wait_first])
     (auto split: option.splits
           intro!: faulting_seq faulting_engine faulting_pause faulting_set_stats faulting_ret
                   faulting_confirm_deletion
           simp: handled_simps)

lemma faulting_attempt_body: "faulting handled_in_place (attempt_body E cfg post)"
  unfolding attempt_body_def count_deleted_def count_skipped_def
  by (intro faulting_seq faulting_engine faulting_pause faulting_extract_post_info)
     (auto split: option.splits
           intro!: faulting_seq faulting_engine faulting_pause faulting_set_stats faulting_ret
                   faulting_select_delete faulting_find_first menu_not_timestamp
           simp: handled_simps)

lemma outcomes_differ:
  "deleted_one s \<noteq> error_one s" "skipped_one s \<noteq> error_one s"
proof -
  have "posts_deleted (deleted_one s) \<noteq> posts_deleted (error_one s)"
    by (simp add: deleted_one_def error_one_def)
  then show "deleted_one s \<noteq> error_one s" by metis
  have "posts_skipped (skipped_one s) \<noteq> posts_skipped (error_one s)"
    by (simp add: skipped_one_def error_one_def)
  then show "skipped_one s \<noteq> error_one s" by metis
qed

section \<open>The session loop\<close>



















section \<open>First occurrences\<close>









section \<open>The accounting invariant\<close>

text \<open>
  Claim C1. For every engine, configuration and starting state of the engine, a run of
  \<open>clean_profile_gradually\<close> on a new cleaner keeps
  \<open>posts_deleted + posts_skipped + errors_encountered \<le> posts_found\<close> at every point:
  every value the statistics take during the run, from the initial one on, is accounted;
  each value comes from the one before by raising one counter and leaving the others as
  they are, so no counter ever goes down; the statistics at the end are the last of these
  values. Each deletion attempt, from any state, makes exactly one assignment to the
  statistics, which adds one to exactly one of the three outcome counters. Attempts are
  made only on posts counted as found before: this is what the proof of the invariant
  rests on (\<open>ledger_process_posts\<close>, \<open>ledger_find_posts_on_page\<close>), whether the run
  ends normally or by an exception.
\<close>

theorem statistics_accounted_throughout:
  "list_all accounted
     (stats (new_cleaner E w) # history (snd (clean_profile_gradually E cfg (new_cleaner E w))))
   \<and> successively stats_step
     (stats (new_cleaner E w) # history (snd (clean_profile_gradually E cfg (new_cleaner E w))))
   \<and> last (stats (new_cleaner E w) # history (snd (clean_profile_gradually E cfg (new_cleaner E w))))
       = stats (snd (clean_profile_gradually E cfg (new_cleaner E w)))
   \<and> accounted (stats (snd (clean_profile_gradually E cfg (new_cleaner E w))))
   \<and> history (snd (attempt_post_deletion E cfg post i st))
       = history st @ [stats (snd (attempt_post_deletion E cfg post i st))]
   \<and> (stats (snd (attempt_post_deletion E cfg post i st)) = deleted_one (stats st)
      \<or> stats (snd (attempt_post_deletion E cfg post i st)) = skipped_one (stats st)
      \<or> stats (snd (attempt_post_deletion E cfg post i st)) = error_one (stats st))"
proof -
  have "ledger (stats (new_cleaner E w)) 0 (snd (clean_profile_gradually E cfg (new_cleaner E w)))"
    by (rule ledger_clean_profile_gradually[OF ledger_new_cleaner])
  then have run: "list_all accounted
     (stats (new_cleaner E w) # history (snd (clean_profile_gradually E cfg (new_cleaner E w))))
   \<and> successively stats_step
     (stats (new_cleaner E w) # history (snd (clean_profile_gradually E cfg (new_cleaner E w))))
   \<and> last (stats (new_cleaner E w) # history (snd (clean_profile_gradually E cfg (new_cleaner E w))))
       = stats (snd (clean_profile_gradually E cfg (new_cleaner E w)))
   \<and> accounted (stats (snd (clean_profile_gradually E cfg (new_cleaner E w))))"
    unfolding ledger_def accounted_def by simp
  have one: "history (snd (attempt_post_deletion E cfg post i st))
       = history st @ [stats (snd (attempt_post_deletion E cfg post i st))]
   \<and> (stats (snd (attempt_post_deletion E cfg post i st)) = deleted_one (stats st)
      \<or> stats (snd (attempt_post_deletion E cfg post i st)) = skipped_one (stats st)
      \<or> stats (snd (attempt_post_deletion E cfg post i st)) = error_one (stats st))"
    using refl[of "attempt_post_deletion E cfg post i st"]
    by (cases rule: attempt_post_deletion_cases) simp_all
  from run one show ?thesis by blast
qed

section \<open>Configuration validation\<close>

text \<open>
  Claim C5. Validation is claimed to reject every configuration with
  \<open>min_delete_delay > max_delete_delay\<close>. \<open>validate_config\<close> compares the action delays
  under \<open># Check timing consistency\<close> and never reads the delete delays: a configuration
  that is valid otherwise and has \<open>min_delete_delay = 7\<close>, \<open>max_delete_delay = 3\<close> is
  accepted.
\<close>

theorem validate_config_ignores_delete_delays:
  "validate_config
     \<lparr>email = ''user@example.com'', password = ''secret'', posts_per_session = 10,
      max_sessions = 5, session_delay = 300, min_action_delay = 1, max_action_delay = 3,
      min_delete_delay = 7, max_delete_delay = 3, whatif = False, verbose = False\<rparr>
   = (True, ''Configuration valid'')"
  by (simp add: validate_config_def)

section \<open>Pacing delays\<close>




section \<open>The rate in the final statistics\<close>

text \<open>
  Claim C10, as amended. \<open>get_final_stats\<close> never raises: it returns the entries of the
  statistics with the end time, the duration in seconds and the rate, and the rate is
  \<open>posts_deleted\<close> divided by the duration in minutes when the duration is positive, and
  0 when the duration is zero or negative. Durations and rates are real numbers here.
\<close>

theorem posts_per_minute_guarded:
  "fst (get_final_stats E st) =
     Inr (stats.extend (stats st)
       \<lparr>session_end = fst (datetime_now E (world st)),
        duration_seconds = total_seconds (fst (datetime_now E (world st)) - session_start (stats st)),
        posts_per_minute =
          (if total_seconds (fst (datetime_now E (world st)) - session_start (stats st)) > 0
           then real_of_int (posts_deleted (stats st))
                / (total_seconds (fst (datetime_now E (world st)) - session_start (stats st)) / 60)
           else 0)\<rparr>)"
  by (simp add: get_final_stats_def final_stats_at_def truediv_def Let_def split: prod.splits)

text \<open>
  The claim as stated gives the quotient for every duration other than zero. When the
  clock reads a minute less at the end than at the start (\<open>datetime.now()\<close> is local
  wall-clock time), three deleted posts give the rate 0, while the quotient is -3.
\<close>

theorem posts_per_minute_clock_set_back:
  "(case fst (get_final_stats sim late_start) of
      Inl e \<Rightarrow> False
    | Inr fs \<Rightarrow> duration_seconds fs = - 60 \<and> posts_per_minute fs = 0
        \<and> real_of_int (posts_deleted fs) / (duration_seconds fs / 60) = - 3)"
  by (simp add: late_start_def get_final_stats_def final_stats_at_def truediv_def Let_def
        total_seconds_def sim_def page0_def stats.defs final_stats.defs)

section \<open>Simulation mode\<close>

text \<open>
  Claim C2, as amended. In simulation mode a deletion attempt issues no click and looks up
  no menu, delete or confirm control: the calls it adds are the scroll of the post into
  view, which comes first, pauses, and the reads \<open>extract_post_info\<close> makes for the log.
  When the scroll returns, the attempt adds one to \<open>posts_deleted\<close>, changes no other
  entry of the statistics and returns \<open>True\<close>; when the scroll raises, the attempt adds
  one to \<open>errors_encountered\<close> and returns \<open>False\<close>. The final statistics are a value of
  the one type \<open>final_stats\<close> in both modes.
\<close>

theorem whatif_attempt_only_observes:
  assumes "whatif cfg"
  shows "(case fst (drv_execute_script E scroll_script post (world st)) of
            Inl e \<Rightarrow> fst (attempt_post_deletion E cfg post i st) = Inr False
                    \<and> stats (snd (attempt_post_deletion E cfg post i st)) = error_one (stats st)
          | Inr u \<Rightarrow> fst (attempt_post_deletion E cfg post i st) = Inr True
                    \<and> stats (snd (attempt_post_deletion E cfg post i st)) = deleted_one (stats st))
         \<and> take (Suc (length (calls st))) (calls (snd (attempt_post_deletion E cfg post i st)))
             = calls st @ [ExecuteScript scroll_script post]
         \<and> list_all (observes post)
             (drop (length (calls st)) (calls (snd (attempt_post_deletion E cfg post i st))))"
proof -
  let ?A = "attempt_post_deletion E cfg post i st"
  obtain cs where cs: "calls (snd ?A) = calls st @ cs" "list_all (observes post) cs"
    using emits_whatif_attempt[OF assms, of post E i] unfolding emits_def by blast
  have obs: "list_all (observes post) (drop (length (calls st)) (calls (snd ?A)))"
    using cs by simp
  obtain r w1 where x: "drv_execute_script E scroll_script post (world st) = (r, w1)"
    by (cases "drv_execute_script E scroll_script post (world st)")
  let ?st1 = "st\<lparr>world := w1, calls := calls st @ [ExecuteScript scroll_script post],
                faults := (case r of
                             Inl e \<Rightarrow> faults st @ [(ExecuteScript scroll_script post, e)]
                           | Inr a \<Rightarrow> faults st)\<rparr>"
  have e: "engine (ExecuteScript scroll_script post) (drv_execute_script E scroll_script post) st
           = (r, ?st1)"
    using x by (simp add: engine_def)
  show ?thesis
  proof (cases r)
    case (Inl e')
    have b: "attempt_body E cfg post st = (Inl e', ?st1)"
      using e Inl by (simp add: attempt_body_def seq_def)
    have a: "?A = (Inr False, ?st1\<lparr>stats := error_one (stats ?st1),
                                   history := history ?st1 @ [error_one (stats ?st1)]\<rparr>)"
      using b by (simp add: attempt_post_deletion_def try_except_def seq_def count_error_def
                            set_stats_def ret_def)
    show ?thesis using a x Inl obs by simp
  next
    case (Inr u)
    obtain r2 st2 where h: "human_like_delay E cfg (Some 1) (Some 2) ?st1 = (r2, st2)"
      by (cases "human_like_delay E cfg (Some 1) (Some 2) ?st1")
    have r2: "r2 = Inr ()"
      using human_like_delay_returns[of 1 2 E cfg ?st1] h by simp
    obtain r3 st3 where x3: "extract_post_info E post st2 = (r3, st3)"
      by (cases "extract_post_info E post st2")
    have r3: "r3 = Inr ()" using extract_post_info_returns[of E post st2] x3 by simp
    have q2: "stats st2 = stats st"
      using quietD[OF quiet_human_like_delay h] by simp
    have q3: "stats st3 = stats st2"
      using quietD[OF quiet_extract_post_info x3] by simp
    obtain c2 where c2: "calls st2 = calls ?st1 @ c2"
      using emitsD[OF emits_human_like_delay h, of "\<lambda>_. True"] by auto
    obtain c3 where c3: "calls st3 = calls st2 @ c3"
      using emitsD[OF emits_extract_post_info x3] by auto
    have a: "?A = (Inr True, st3\<lparr>stats := deleted_one (stats st3),
                                   history := history st3 @ [deleted_one (stats st3)]\<rparr>)"
      using e Inr h r2 x3 r3 assms
      by (simp add: attempt_post_deletion_def try_except_def attempt_body_def seq_def
                    count_deleted_def set_stats_def ret_def)
    have "take (Suc (length (calls st))) (calls (snd ?A)) = calls st @ [ExecuteScript scroll_script post]"
      using a c2 c3 by simp
    then show ?thesis using a x Inr obs q2 q3 by simp
  qed
qed

text \<open>On the simulated page, in simulation mode, the attempt on post 1 succeeds.\<close>

theorem whatif_attempt_only_observes_witness:
  "whatif (cfg0\<lparr>whatif := True\<rparr>)
   \<and> fst (attempt_post_deletion sim (cfg0\<lparr>whatif := True\<rparr>) 1 0 (new_cleaner sim page0)) = Inr True
   \<and> posts_deleted (stats (snd (attempt_post_deletion sim (cfg0\<lparr>whatif := True\<rparr>) 1 0
        (new_cleaner sim page0)))) = 1"
  using whatif_attempt_only_observes[where cfg = "cfg0\<lparr>whatif := True\<rparr>" and E = sim
      and post = 1 and st = "new_cleaner sim page0" and i = 0]
  by (simp add: cfg0_def sim_def new_cleaner_def page0_def deleted_one_def)

text \<open>
  The claim as stated promises one more deleted post and success for every item. On a
  page whose post 1 is stale the scroll raises: the attempt in simulation mode returns
  \<open>False\<close>, \<open>posts_deleted\<close> stays 0 and \<open>errors_encountered\<close> becomes 1; the one call
  made is the script run on the page.
\<close>

theorem whatif_attempt_on_stale_post:
  "fst (attempt_post_deletion sim (cfg0\<lparr>whatif := True\<rparr>) 1 0
          (new_cleaner sim (page0\<lparr>stale := [1]\<rparr>))) = Inr False
   \<and> posts_deleted (stats (snd (attempt_post_deletion sim (cfg0\<lparr>whatif := True\<rparr>) 1 0
          (new_cleaner sim (page0\<lparr>stale := [1]\<rparr>))))) = 0
   \<and> errors_encountered (stats (snd (attempt_post_deletion sim (cfg0\<lparr>whatif := True\<rparr>) 1 0
          (new_cleaner sim (page0\<lparr>stale := [1]\<rparr>))))) = 1
   \<and> calls (snd (attempt_post_deletion sim (cfg0\<lparr>whatif := True\<rparr>) 1 0
          (new_cleaner sim (page0\<lparr>stale := [1]\<rparr>))))
       = [ExecuteScript ''arguments[0].scrollIntoView(true);'' 1]"
  by (simp add: run_simps)

section \<open>No confirmation control\<close>

text \<open>
  Claim C3. In real mode, when delete has been chosen and no confirm control can be
  found, the outcome is to be \<open>Deleted\<close> if the post is no longer on the page, and
  \<open>Skipped\<close> otherwise. The code makes no such check: the branch for a missing confirm
  button counts a skip and returns \<open>False\<close>. On the simulated page without dialog,
  choosing delete removes the post at once. The attempt on post 1 clicks its menu and
  its delete entry, which removes it from the page, returns \<open>False\<close> and counts it as
  skipped; the batch over both posts removes both
  and returns 0, against its docstring (\<open>Number of posts actually deleted\<close>); and the run
  takes that 0 for the end of the content and stops after its first session with
  \<open>posts_deleted = 0\<close> and an empty page.
\<close>

theorem deleted_without_dialog_counts_as_skipped:
  "\<not> whatif cfg0
   \<and> listed (world (new_cleaner sim (page0\<lparr>dialog := False\<rparr>))) = [1, 2]
   \<and> map_prod id page_report
         (attempt_post_deletion sim cfg0 1 0 (new_cleaner sim (page0\<lparr>dialog := False\<rparr>)))
       = (Inr False, [2], [ActionsClick 1001, Click 2001], 0, 1, 0, [])
   \<and> map_prod id page_report
         (delete_posts_batch sim cfg0 10 (new_cleaner sim (page0\<lparr>dialog := False\<rparr>)))
       = (Inr 0, [], [ActionsClick 1001, Click 2001, ActionsClick 1002, Click 2002], 0, 2, 0, [])
   \<and> page_report
         (snd (clean_profile_gradually sim cfg0 (new_cleaner sim (page0\<lparr>dialog := False\<rparr>))))
       = ([], [ActionsClick 1001, Click 2001, ActionsClick 1002, Click 2002], 0, 2, 0, [(1, 0)])"
  by (simp add: eval_simps page_report_def is_click_def)

section \<open>Exceptions during an attempt\<close>

text \<open>
  Claim C6, as amended. No exception leaves \<open>attempt_post_deletion\<close>: it always returns
  \<open>True\<close> or \<open>False\<close>. Some engine exceptions are handled where they arise:
  \<open>NoSuchElementException\<close> in the menu lookup, \<open>TimeoutException\<close> in the waits for the
  delete and confirm controls, and whatever is raised inside \<open>extract_post_info\<close>. The
  attempt counts an error exactly when the engine raises an exception that is not one of
  these. Then the attempt returns \<open>False\<close>, adds one to \<open>errors_encountered\<close> and changes
  nothing else in the statistics; the exception is the last one of the attempt and comes
  from the last call the attempt makes, so nothing is retried; and the batch loop goes on
  with the next post.
\<close>

theorem unhandled_exception_is_counted_and_passed_over:
  "(fst (attempt_post_deletion E cfg post i st) = Inr True
      \<or> fst (attempt_post_deletion E cfg post i st) = Inr False)
   \<and> (list_ex (\<lambda>f. \<not> handled_in_place f)
          (drop (length (faults st)) (faults (snd (attempt_post_deletion E cfg post i st))))
        = (stats (snd (attempt_post_deletion E cfg post i st)) = error_one (stats st)))
   \<and> (list_ex (\<lambda>f. \<not> handled_in_place f)
          (drop (length (faults st)) (faults (snd (attempt_post_deletion E cfg post i st))))
      \<longrightarrow> fst (attempt_post_deletion E cfg post i st) = Inr False
          \<and> stats (snd (attempt_post_deletion E cfg post i st)) = error_one (stats st)
          \<and> list_all handled_in_place
              (butlast (drop (length (faults st))
                 (faults (snd (attempt_post_deletion E cfg post i st)))))
          \<and> fst (last (faults (snd (attempt_post_deletion E cfg post i st))))
              = last (calls (snd (attempt_post_deletion E cfg post i st)))
          \<and> process_posts E cfg (post # rest) i n st =
              process_posts E cfg rest (i + 1) n (snd (attempt_post_deletion E cfg post i st)))"
proof -
  let ?A = "attempt_post_deletion E cfg post i st"
  obtain r st1 where b: "attempt_body E cfg post st = (r, st1)"
    by (cases "attempt_body E cfg post st")
  note spec = body_specD[OF body_spec_attempt_body b]
  note flt = faultingD[OF faulting_attempt_body b]
  show ?thesis
  proof (cases r)
    case (Inr ok)
    have a: "?A = (Inr ok, st1)"
      using b Inr by (simp add: attempt_post_deletion_def try_except_def)
    obtain fs where fs: "faults st1 = faults st @ fs" "list_all handled_in_place fs"
      using flt Inr by auto
    have none: "\<not> list_ex (\<lambda>f. \<not> handled_in_place f) (drop (length (faults st)) (faults st1))"
      using fs by (simp add: list_ex_iff list_all_iff)
    have ne: "stats st1 \<noteq> error_one (stats st)"
      using spec Inr outcomes_differ[of "stats st"] by (cases ok) simp_all
    show ?thesis unfolding a using none ne by (cases ok) simp_all
  next
    case (Inl e)
    let ?st' = "st1\<lparr>stats := error_one (stats st), history := history st @ [error_one (stats st)]\<rparr>"
    have q: "stats st1 = stats st" "history st1 = history st" using spec Inl by simp_all
    have a: "?A = (Inr False, ?st')"
      using b Inl q by (simp add: attempt_post_deletion_def try_except_def seq_def count_error_def
                                  set_stats_def ret_def)
    obtain fs c where fs: "faults st1 = faults st @ fs @ [(c, e)]" "list_all handled_in_place fs"
        "\<not> handled_in_place (c, e)" "calls st1 \<noteq> []" "last (calls st1) = c"
      using flt Inl by auto
    have new: "drop (length (faults st)) (faults ?st') = fs @ [(c, e)]" using fs(1) by simp
    have ex: "list_ex (\<lambda>f. \<not> handled_in_place f) (drop (length (faults st)) (faults ?st'))"
      unfolding new using fs(3) by (simp add: list_ex_iff)
    have bl: "list_all handled_in_place (butlast (drop (length (faults st)) (faults ?st')))"
      unfolding new using fs(2) by simp
    have lst: "fst (last (faults ?st')) = last (calls ?st')" using fs(1,5) by simp
    have loop: "process_posts E cfg (post # rest) i n st = process_posts E cfg rest (i + 1) n ?st'"
      using a by (simp add: seq_def)
    show ?thesis unfolding a using ex bl lst loop by simp
  qed
qed

text \<open>
  On a page whose post 1 is stale, the scroll raises; the attempt on post 1 counts one
  error and makes no further call, and the loop over posts 1 and 2 goes on with post 2.
\<close>

theorem unhandled_exception_is_counted_and_passed_over_witness:
  "faults (snd (attempt_post_deletion sim cfg0 1 0 stale_start))
     = [(ExecuteScript scroll_script 1, WebDriverException ''stale element reference'')]
   \<and> \<not> handled_in_place (ExecuteScript scroll_script (1::nat),
                            WebDriverException ''stale element reference'')
   \<and> fst (attempt_post_deletion sim cfg0 1 0 stale_start) = Inr False
   \<and> errors_encountered (stats (snd (attempt_post_deletion sim cfg0 1 0 stale_start))) = 1
   \<and> calls (snd (attempt_post_deletion sim cfg0 1 0 stale_start)) = [ExecuteScript scroll_script 1]
   \<and> process_posts sim cfg0 [1, 2] 0 0 stale_start =
       process_posts sim cfg0 [2] 1 0 (snd (attempt_post_deletion sim cfg0 1 0 stale_start))"
proof -
  have f: "faults (snd (attempt_post_deletion sim cfg0 1 0 stale_start))
     = [(ExecuteScript scroll_script 1, WebDriverException ''stale element reference'')]"
    and c: "calls (snd (attempt_post_deletion sim cfg0 1 0 stale_start))
     = [ExecuteScript scroll_script 1]"
    and z: "faults stale_start = []" "stats stale_start
       = \<lparr>posts_found = 0, posts_deleted = 0, posts_skipped = 0, errors_encountered = 0,
          session_start = 0, sessions_completed = 0\<rparr>"
    by (simp_all add: stale_start_def run_simps)
  have h: "\<not> handled_in_place (ExecuteScript scroll_script (1::nat),
                            WebDriverException ''stale element reference'')"
    by (simp add: handled_in_place_def)
  show ?thesis
    using f c z h
      unhandled_exception_is_counted_and_passed_over[where E = sim and cfg = cfg0 and post = 1
        and i = 0 and st = stale_start and rest = "[2]" and n = 0]
    by (simp add: error_one_def)
qed

text \<open>
  The claim as stated covers every exception the engine raises during the attempt. With
  an engine that raises on reading the text of an element, the attempt on post 1 reads
  the text, the engine raises, \<open>extract_post_info\<close> swallows the exception, and the
  attempt goes on to delete the post: it returns \<open>True\<close> and counts no error.
\<close>

theorem swallowed_exception_is_not_an_error:
  "hd (faults (snd (attempt_post_deletion sim_no_text cfg0 1 0 (new_cleaner sim_no_text page0))))
     = (GetText 1, WebDriverException ''no such window'')
   \<and> fst (attempt_post_deletion sim_no_text cfg0 1 0 (new_cleaner sim_no_text page0)) = Inr True
   \<and> errors_encountered (stats (snd (attempt_post_deletion sim_no_text cfg0 1 0
                                      (new_cleaner sim_no_text page0)))) = 0
   \<and> posts_deleted (stats (snd (attempt_post_deletion sim_no_text cfg0 1 0
                                      (new_cleaner sim_no_text page0)))) = 1"
  by (simp add: sim_no_text_def run_simps)

section \<open>Failed preconditions\<close>

text \<open>
  Claim C8. When login fails, or login succeeds and the navigation to the activity log
  fails, \<open>clean_profile_gradually\<close> returns normally with the final statistics built from
  the statistics as they were: the statistics are unchanged, no session is logged, and
  the only calls made are the login, and the navigation when login succeeded.
\<close>

theorem failed_precondition_returns_statistics:
  assumes "\<not> fst (login E (world st))
           \<or> \<not> fst (navigate_to_activity_log E (snd (login E (world st))))"
  shows "(\<exists>fs. fst (clean_profile_gradually E cfg st) = Inr fs \<and> stats.truncate fs = stats st)
         \<and> stats (snd (clean_profile_gradually E cfg st)) = stats st
         \<and> history (snd (clean_profile_gradually E cfg st)) = history st
         \<and> sessions (snd (clean_profile_gradually E cfg st)) = sessions st
         \<and> calls (snd (clean_profile_gradually E cfg st)) =
             (if fst (login E (world st)) then calls st @ [Login, Navigate] else calls st @ [Login])"
proof -
  obtain ok w1 where l: "login E (world st) = (ok, w1)" by (cases "login E (world st)")
  let ?st1 = "st\<lparr>world := w1, calls := calls st @ [Login]\<rparr>"
  have c1: "collaborator Login (login E) st = (Inr ok, ?st1)"
    using l by (simp add: collaborator_def)
  show ?thesis
  proof (cases ok)
    case False
    obtain fs where fs: "get_final_stats E ?st1 = (Inr fs, ?st1\<lparr>world := snd (datetime_now E (world ?st1))\<rparr>)"
        "stats.truncate fs = stats ?st1"
      using get_final_stats_result[of E ?st1] by blast
    have "clean_profile_gradually E cfg st = get_final_stats E ?st1"
      using c1 False by (simp add: clean_profile_gradually_def seq_def)
    then show ?thesis using fs l False by simp
  next
    case True
    obtain ok2 w2 where n: "navigate_to_activity_log E w1 = (ok2, w2)"
      by (cases "navigate_to_activity_log E w1")
    have ok2: "\<not> ok2" using assms l True n by simp
    let ?st2 = "st\<lparr>world := w2, calls := calls st @ [Login, Navigate]\<rparr>"
    have c2: "collaborator Navigate (navigate_to_activity_log E) ?st1 = (Inr ok2, ?st2)"
      using n by (simp add: collaborator_def)
    obtain fs where fs: "get_final_stats E ?st2 = (Inr fs, ?st2\<lparr>world := snd (datetime_now E (world ?st2))\<rparr>)"
        "stats.truncate fs = stats ?st2"
      using get_final_stats_result[of E ?st2] by blast
    have "clean_profile_gradually E cfg st = get_final_stats E ?st2"
      using c1 True c2 ok2 by (simp add: clean_profile_gradually_def seq_def)
    then show ?thesis using fs l True by simp
  qed
qed

text \<open>On the simulated page: once with a failing login, once with a failing navigation.\<close>

theorem failed_precondition_returns_statistics_witness:
  "\<not> fst (login sim (world (new_cleaner sim (page0\<lparr>can_login := False\<rparr>))))
   \<and> calls (snd (clean_profile_gradually sim cfg0 (new_cleaner sim (page0\<lparr>can_login := False\<rparr>))))
       = [Login]
   \<and> sessions (snd (clean_profile_gradually sim cfg0 (new_cleaner sim (page0\<lparr>can_login := False\<rparr>))))
       = []
   \<and> fst (login sim (world (new_cleaner sim (page0\<lparr>can_navigate := False\<rparr>))))
   \<and> \<not> fst (navigate_to_activity_log sim
             (snd (login sim (world (new_cleaner sim (page0\<lparr>can_navigate := False\<rparr>))))))
   \<and> calls (snd (clean_profile_gradually sim cfg0 (new_cleaner sim (page0\<lparr>can_navigate := False\<rparr>))))
       = [Login, Navigate]
   \<and> posts_found (stats (snd (clean_profile_gradually sim cfg0
        (new_cleaner sim (page0\<lparr>can_navigate := False\<rparr>))))) = 0"
  using failed_precondition_returns_statistics[where E = sim and cfg = cfg0
          and st = "new_cleaner sim (page0\<lparr>can_login := False\<rparr>)"]
        failed_precondition_returns_statistics[where E = sim and cfg = cfg0
          and st = "new_cleaner sim (page0\<lparr>can_navigate := False\<rparr>)"]
  by (simp add: sim_def new_cleaner_def page0_def)

section \<open>Sessions without deletions\<close>



section \<open>Deduplication\<close>




end
